theory Spec2Isabelle
  imports Main
begin

section \<open>Values exchanged over the channel\<close>

text \<open>
  The payload of a message is typed \<^verbatim>\<open>any\<close> in the source. It is modelled by the
  JavaScript values a structured message can carry; numbers are restricted to the
  integers that JavaScript holds exactly and prints in decimal, the keys of an object
  are taken to be distinct, and an object has no \<^verbatim>\<open>toString\<close> of its own.
\<close>

datatype json =
    JUndefined
  | JNull
  | JBool bool
  | JNum int
  | JStr string
  | JArr "json list"
  | JObj "(string \<times> json) list"

text \<open>JavaScript truthiness, as tested by \<^verbatim>\<open>if (event.data.data.done)\<close>.\<close>

fun truthy :: "json \<Rightarrow> bool" where
  "truthy JUndefined = False"
| "truthy JNull = False"
| "truthy (JBool b) = b"
| "truthy (JNum n) = (n \<noteq> 0)"
| "truthy (JStr s) = (s \<noteq> [])"
| "truthy (JArr xs) = True"
| "truthy (JObj kvs) = True"

text \<open>
  Reading a property \<^verbatim>\<open>v.k\<close>. On \<^verbatim>\<open>undefined\<close> and \<^verbatim>\<open>null\<close> the read throws a
  TypeError (the value \<open>None\<close>); on an object it is the stored value or
  \<^verbatim>\<open>undefined\<close>; on the other values it is \<^verbatim>\<open>undefined\<close> for the two keys the
  source reads (\<^verbatim>\<open>done\<close> and \<^verbatim>\<open>content\<close>), which no built-in prototype defines.
\<close>

fun get_prop :: "json \<Rightarrow> string \<Rightarrow> json option" where
  "get_prop JUndefined k = None"
| "get_prop JNull k = None"
| "get_prop (JObj kvs) k = (case map_of kvs k of None \<Rightarrow> Some JUndefined | Some v \<Rightarrow> Some v)"
| "get_prop v k = Some JUndefined"

fun show_nat :: "nat \<Rightarrow> string" where
  "show_nat n =
     (if n < 10 then [''0123456789'' ! n]
      else show_nat (n div 10) @ [''0123456789'' ! (n mod 10)])"

declare show_nat.simps [simp del]

definition show_int :: "int \<Rightarrow> string" where
  "show_int i = (if i < 0 then ''-'' @ show_nat (nat (- i)) else show_nat (nat i))"

fun join :: "string \<Rightarrow> string list \<Rightarrow> string" where
  "join sep [] = []"
| "join sep [x] = x"
| "join sep (x # y # ys) = x @ sep @ join sep (y # ys)"

text \<open>
  The string a value becomes when it is appended to a string with \<^verbatim>\<open>+=\<close>
  (ToString): an array joins its elements with commas, writing \<^verbatim>\<open>undefined\<close> and
  \<^verbatim>\<open>null\<close> elements as the empty string; a plain object is \<^verbatim>\<open>[object Object]\<close>.
\<close>

fun js_to_string :: "json \<Rightarrow> string" where
  "js_to_string JUndefined = ''undefined''"
| "js_to_string JNull = ''null''"
| "js_to_string (JBool b) = (if b then ''true'' else ''false'')"
| "js_to_string (JNum n) = show_int n"
| "js_to_string (JStr s) = s"
| "js_to_string (JArr xs) =
     join '','' (map (\<lambda>x. if x = JUndefined \<or> x = JNull then [] else js_to_string x) xs)"
| "js_to_string (JObj kvs) = ''[object Object]''"

text \<open>The interface \<^verbatim>\<open>Message\<close> of \<^verbatim>\<open>core/util/messenger\<close>: the envelope.\<close>

record Message =
  messageId :: string
  messageType :: string
  data :: json

section \<open>The execution environment and the effects of a send\<close>

text \<open>
  What \<^verbatim>\<open>_postToIde\<close> inspects at call time: whether the global \<^verbatim>\<open>vscode\<close> is
  defined, the value of \<^verbatim>\<open>localStorage.getItem("ide")\<close> (\<open>None\<close> is \<^verbatim>\<open>null\<close>),
  whether \<^verbatim>\<open>window.postIntellijMessage\<close> is defined, and the identifier the next
  call of \<^verbatim>\<open>uuidv4()\<close> returns. The two send primitives are taken to accept every
  message they are given.
\<close>

record environment =
  vscode :: bool
  ide :: "string option"
  postIntellijMessage :: bool
  uuidv4 :: string

datatype error = Error string

text \<open>The callback handed to \<^verbatim>\<open>setTimeout\<close>: a call of \<^verbatim>\<open>postToIde\<close> with its arguments.\<close>

datatype callback = Retry string json "string option" nat

datatype effect =
    ConsoleLog string "json list"
  | ConsoleError string error
  | PostMessage Message
  | PostIntellijMessage string json string
  | SetTimeout callback nat

text \<open>
  A call has the effects it performed, in order, and either returns (\<open>Inr\<close>) or throws
  (\<open>Inl\<close>).
\<close>

type_synonym outcome = "effect list \<times> (error + unit)"

section \<open>Transport selector\<close>

text \<open>The function \<^verbatim>\<open>_postToIde\<close>; \<^verbatim>\<open>messageId ?? uuidv4()\<close> is \<open>id_or_fresh\<close>.\<close>

definition id_or_fresh :: "environment \<Rightarrow> string option \<Rightarrow> string" where
  "id_or_fresh env mid = (case mid of None \<Rightarrow> uuidv4 env | Some m \<Rightarrow> m)"

definition underscore_postToIde ::
  "environment \<Rightarrow> string \<Rightarrow> json \<Rightarrow> string option \<Rightarrow> outcome" where
  "underscore_postToIde env mtype dat mid =
     (if \<not> vscode env then
        (if ide env = Some ''jetbrains'' then
           (if \<not> postIntellijMessage env then
              ([ConsoleLog ''Unable to send message: postIntellijMessage is undefined. ''
                  [JStr mtype, dat]],
               Inl (Error ''postIntellijMessage is undefined''))
            else
              ([PostIntellijMessage mtype dat (id_or_fresh env mid)], Inr ()))
         else
           ([ConsoleLog ''Unable to send message: vscode is undefined. '' [JStr mtype, dat]],
            Inr ()))
      else
        ([PostMessage \<lparr>messageId = id_or_fresh env mid, messageType = mtype, data = dat\<rparr>],
         Inr ()))"

section \<open>Outbound dispatcher with retry\<close>

text \<open>
  One call of \<^verbatim>\<open>postToIde\<close>. The \<^verbatim>\<open>try\<close> block runs \<^verbatim>\<open>_postToIde\<close>; the
  \<^verbatim>\<open>catch\<close> block either logs and schedules the next attempt after
  \<^verbatim>\<open>Math.pow(2, attempt) * 1000\<close> milliseconds, or logs the final error. Neither
  branch rethrows.
\<close>

definition postToIde ::
  "environment \<Rightarrow> string \<Rightarrow> json \<Rightarrow> string option \<Rightarrow> nat \<Rightarrow> outcome" where
  "postToIde env mtype dat mid attempt =
     (case underscore_postToIde env mtype dat mid of
        (fx, Inr u) \<Rightarrow> (fx, Inr ())
      | (fx, Inl err) \<Rightarrow>
          (if attempt < 5 then
             (fx @ [ConsoleLog (''Attempt '' @ show_nat attempt @ '' failed. Retrying...'') [],
                    SetTimeout (Retry mtype dat mid (attempt + 1)) (2 ^ attempt * 1000)],
              Inr ())
           else
             (fx @ [ConsoleError ''Max attempts reached. Message could not be sent.'' err],
              Inr ())))"

text \<open>The callback a call has scheduled with \<^verbatim>\<open>setTimeout\<close>, if any.\<close>

fun scheduled :: "effect list \<Rightarrow> callback option" where
  "scheduled [] = None"
| "scheduled (SetTimeout cb ms # fx) = Some cb"
| "scheduled (e # fx) = scheduled fx"

text \<open>
  The event loop running a send to its end: the call itself, then each scheduled
  callback when its timer fires. \<open>env n\<close> is the environment found when the call with
  attempt number \<open>n\<close> runs. The result lists the calls made, in order: the attempt
  number, the effects and the outcome of each.
\<close>

function event_loop ::
  "(nat \<Rightarrow> environment) \<Rightarrow> string \<Rightarrow> json \<Rightarrow> string option \<Rightarrow> nat \<Rightarrow> (nat \<times> outcome) list" where
  "event_loop env mtype dat mid attempt =
     (let r = postToIde (env attempt) mtype dat mid attempt in
      (attempt, r) #
        (case scheduled (fst r) of
           None \<Rightarrow> []
         | Some (Retry mtype' dat' mid' attempt') \<Rightarrow> event_loop env mtype' dat' mid' attempt'))"
  by pat_completeness auto

lemma scheduled_append:
  "scheduled (fx @ gx) = (case scheduled fx of None \<Rightarrow> scheduled gx | Some cb \<Rightarrow> Some cb)"
  by (induction fx rule: scheduled.induct) auto

lemma scheduled_underscore [simp]:
  "scheduled (fst (underscore_postToIde env mtype dat mid)) = None"
  by (simp add: underscore_postToIde_def)

lemma scheduled_postToIde:
  "scheduled (fst (postToIde env mtype dat mid attempt)) = Some (Retry mtype' dat' mid' attempt')
   \<Longrightarrow> attempt' = attempt + 1 \<and> attempt < 5 \<and> mtype' = mtype \<and> dat' = dat \<and> mid' = mid"
  by (auto simp: postToIde_def underscore_postToIde_def split: if_splits)

termination event_loop
  by (relation "measure (\<lambda>(env, mtype, dat, mid, attempt). 6 - attempt)")
     (auto dest!: scheduled_postToIde)

declare event_loop.simps [simp del]

text \<open>Reading a run of the event loop: attempt numbers, timer delays, envelopes sent.\<close>

definition attempts :: "(nat \<times> outcome) list \<Rightarrow> nat list" where
  "attempts calls = map fst calls"

definition effects :: "(nat \<times> outcome) list \<Rightarrow> effect list" where
  "effects calls = concat (map (\<lambda>c. fst (snd c)) calls)"

fun delay_of :: "effect \<Rightarrow> nat list" where
  "delay_of (SetTimeout cb ms) = [ms]"
| "delay_of e = []"

definition delays :: "effect list \<Rightarrow> nat list" where
  "delays fx = concat (map delay_of fx)"

fun sent_of :: "effect \<Rightarrow> Message list" where
  "sent_of (PostMessage m) = [m]"
| "sent_of (PostIntellijMessage mtype dat mid) =
     [\<lparr>messageId = mid, messageType = mtype, data = dat\<rparr>]"
| "sent_of e = []"

definition envelopes_sent :: "effect list \<Rightarrow> Message list" where
  "envelopes_sent fx = concat (map sent_of fx)"

section \<open>Reverse-channel responder\<close>

definition respondToIde :: "environment \<Rightarrow> string \<Rightarrow> json \<Rightarrow> string \<Rightarrow> outcome" where
  "respondToIde env mtype dat mid = underscore_postToIde env mtype dat (Some mid)"

section \<open>Unary calls\<close>

text \<open>
  The state \<^verbatim>\<open>ideRequest\<close> leaves behind: whether its listener is still registered
  on the window, the values \<^verbatim>\<open>resolve\<close> has been called with, and the calls of
  \<^verbatim>\<open>postToIde\<close> it made. The promise settles with the first value \<^verbatim>\<open>resolve\<close> is given.
\<close>

record pending_call =
  listening :: bool
  resolve_calls :: "json list"
  call_posted :: "(string \<times> json \<times> string) list"

definition ideRequest_handler :: "string \<Rightarrow> Message \<Rightarrow> pending_call \<Rightarrow> pending_call" where
  "ideRequest_handler mid ev p =
     (if messageId ev = mid then
        p\<lparr>listening := False, resolve_calls := resolve_calls p @ [data ev]\<rparr>
      else p)"

text \<open>The window hands an inbound message to the listener while it is registered.\<close>

definition deliver :: "string \<Rightarrow> Message \<Rightarrow> pending_call \<Rightarrow> pending_call" where
  "deliver mid ev p = (if listening p then ideRequest_handler mid ev p else p)"

text \<open>
  \<^verbatim>\<open>ideRequest\<close>, with \<open>mid\<close> the identifier \<^verbatim>\<open>uuidv4()\<close> returned, followed by the
  inbound messages in their order of arrival.
\<close>

definition ideRequest :: "string \<Rightarrow> string \<Rightarrow> json \<Rightarrow> Message list \<Rightarrow> pending_call" where
  "ideRequest mid mtype dat msgs =
     foldl (\<lambda>p ev. deliver mid ev p)
       \<lparr>listening = True, resolve_calls = [], call_posted = [(mtype, dat, mid)]\<rparr> msgs"

definition promise_value :: "pending_call \<Rightarrow> json option" where
  "promise_value p = (case resolve_calls p of [] \<Rightarrow> None | v # vs \<Rightarrow> Some v)"

section \<open>Streaming adapter\<close>

text \<open>
  The variables of one call of \<^verbatim>\<open>ideStreamRequest\<close> (\<^verbatim>\<open>done\<close> is \<open>is_done\<close>),
  whether its message listener and its abort listener are registered, the chunks the
  generator has yielded, the value it has returned (\<open>None\<close> while it has not
  returned), and the calls of \<^verbatim>\<open>postToIde\<close> made so far.
\<close>

record stream =
  buffer :: string
  index :: nat
  is_done :: bool
  returnVal :: json
  handler_registered :: bool
  abort_listener :: bool
  yielded :: "string list"
  returned :: "json option"
  posted :: "(string \<times> json \<times> string) list"

text \<open>
  The listener of \<^verbatim>\<open>ideStreamRequest\<close>. Reading \<^verbatim>\<open>.done\<close> of an
  \<^verbatim>\<open>undefined\<close> or \<^verbatim>\<open>null\<close> payload throws inside the listener, before any
  assignment: the variables keep their values.
\<close>

definition stream_handler :: "string \<Rightarrow> Message \<Rightarrow> stream \<Rightarrow> stream" where
  "stream_handler mid ev s =
     (if messageId ev = mid then
        (case get_prop (data ev) ''done'' of
           None \<Rightarrow> s
         | Some d \<Rightarrow>
             if truthy d then
               s\<lparr>handler_registered := False, is_done := True, returnVal := data ev\<rparr>
             else
               (case get_prop (data ev) ''content'' of
                  None \<Rightarrow> s
                | Some c \<Rightarrow> s\<lparr>buffer := buffer s @ js_to_string c\<rparr>))
      else s)"

text \<open>
  The block that stands both inside and after the \<^verbatim>\<open>while\<close> loop: yield the part of
  the buffer beyond \<open>index\<close>, if there is one.
\<close>

definition yield_new :: "stream \<Rightarrow> stream" where
  "yield_new s =
     (if length (buffer s) > index s then
        s\<lparr>yielded := yielded s @ [drop (index s) (buffer s)], index := length (buffer s)\<rparr>
      else s)"

text \<open>
  The generator resumes when its 50 ms timer fires (the consumer asking for the next
  chunk as soon as it is given one). It tests \<^verbatim>\<open>!done\<close>: either it runs the loop body
  and waits again, or it leaves the loop, yields what is left and returns
  \<^verbatim>\<open>returnVal\<close>. A generator that has returned has no timer.
\<close>

definition resume :: "stream \<Rightarrow> stream" where
  "resume s =
     (if returned s \<noteq> None then s
      else if \<not> is_done s then yield_new s
      else (yield_new s)\<lparr>returned := Some (returnVal s)\<rparr>)"

text \<open>
  What happens around the generator: a message arrives on the window, the timer of the
  polling loop fires, or the cancellation signal fires.
\<close>

datatype event = Inbound Message | Timer | Abort

fun step :: "string \<Rightarrow> stream \<Rightarrow> event \<Rightarrow> stream" where
  "step mid s (Inbound ev) = (if handler_registered s then stream_handler mid ev s else s)"
| "step mid s Timer = resume s"
| "step mid s Abort =
     (if abort_listener s then s\<lparr>posted := posted s @ [(''abort'', JUndefined, mid)]\<rparr> else s)"

text \<open>
  The state when the generator first waits: \<^verbatim>\<open>postToIde\<close> has been called, the
  listeners are registered, and the first test of the loop has found \<^verbatim>\<open>done\<close> false and
  the buffer empty.
\<close>

definition stream_start :: "string \<Rightarrow> string \<Rightarrow> json \<Rightarrow> bool \<Rightarrow> stream" where
  "stream_start mid mtype dat cancelToken =
     \<lparr>buffer = [], index = 0, is_done = False, returnVal = JUndefined,
      handler_registered = True, abort_listener = cancelToken, yielded = [],
      returned = None, posted = [(mtype, dat, mid)]\<rparr>"

text \<open>
  \<^verbatim>\<open>ideStreamRequest\<close>, with \<open>mid\<close> the identifier \<^verbatim>\<open>uuidv4()\<close> returned, run
  against the events that occur while it is consumed. After the last event the timer
  still fires: the final \<open>resume\<close>. In the result \<open>returned = None\<close> says that the
  loop polls forever: \<^verbatim>\<open>done\<close> is false and no further message arrives.
\<close>

definition ideStreamRequest ::
  "string \<Rightarrow> string \<Rightarrow> json \<Rightarrow> bool \<Rightarrow> event list \<Rightarrow> stream" where
  "ideStreamRequest mid mtype dat cancelToken events =
     resume (foldl (step mid) (stream_start mid mtype dat cancelToken) events)"

fun inbound_of :: "event \<Rightarrow> Message list" where
  "inbound_of (Inbound ev) = [ev]"
| "inbound_of e = []"

definition inbound :: "event list \<Rightarrow> Message list" where
  "inbound events = concat (map inbound_of events)"

section \<open>Environments and messages named in the properties\<close>

definition jetbrains_without_bridge :: environment where
  "jetbrains_without_bridge =
     \<lparr>vscode = False, ide = Some ''jetbrains'', postIntellijMessage = False, uuidv4 = ''u-1''\<rparr>"

definition browser_only :: environment where
  "browser_only = \<lparr>vscode = False, ide = None, postIntellijMessage = False, uuidv4 = ''u-1''\<rparr>"

text \<open>The bridge function is installed when attempt \<open>k\<close> runs, not before.\<close>

definition bridge_from :: "nat \<Rightarrow> nat \<Rightarrow> environment" where
  "bridge_from k n =
     \<lparr>vscode = False, ide = Some ''jetbrains'', postIntellijMessage = (k \<le> n), uuidv4 = ''u-1''\<rparr>"

text \<open>No send primitive is reachable: the third case of the selection.\<close>

definition unreachable :: "environment \<Rightarrow> bool" where
  "unreachable env \<longleftrightarrow>
     \<not> vscode env \<and> \<not> (ide env = Some ''jetbrains'' \<and> postIntellijMessage env)"

text \<open>
  The one case in which \<^verbatim>\<open>_postToIde\<close> throws: the marker names the alternate host
  and its bridge function is not installed.
\<close>

definition bridge_missing :: "environment \<Rightarrow> bool" where
  "bridge_missing env \<longleftrightarrow>
     \<not> vscode env \<and> ide env = Some ''jetbrains'' \<and> \<not> postIntellijMessage env"

text \<open>
  A send started at attempt 0 reaches the host: one of the attempts 0 to 5 finds a send
  primitive, every earlier attempt having thrown. \<open>env n\<close> is the environment found
  when attempt \<open>n\<close> runs.
\<close>

definition delivers :: "(nat \<Rightarrow> environment) \<Rightarrow> bool" where
  "delivers env \<longleftrightarrow>
     (\<exists>k\<in>{0..5}. \<not> unreachable (env k) \<and> (\<forall>j\<in>{0..<k}. bridge_missing (env j)))"

text \<open>
  A fragment for the stream \<open>mid\<close>: a message with the stream's identifier whose
  payload has a falsy \<^verbatim>\<open>done\<close> and a string \<^verbatim>\<open>content\<close>, the branch of the listener
  that appends to the buffer. A completion: a message with the stream's identifier whose
  payload has a truthy \<^verbatim>\<open>done\<close>, the other branch.
\<close>

definition fragment :: "string \<Rightarrow> Message \<Rightarrow> bool" where
  "fragment mid ev \<longleftrightarrow>
     messageId ev = mid
     \<and> (case get_prop (data ev) ''done'' of None \<Rightarrow> False | Some d \<Rightarrow> \<not> truthy d)
     \<and> (case get_prop (data ev) ''content'' of Some (JStr c) \<Rightarrow> True | _ \<Rightarrow> False)"

definition content_of :: "Message \<Rightarrow> string" where
  "content_of ev = (case get_prop (data ev) ''content'' of Some (JStr c) \<Rightarrow> c | _ \<Rightarrow> [])"

definition completion :: "string \<Rightarrow> Message \<Rightarrow> bool" where
  "completion mid ev \<longleftrightarrow>
     messageId ev = mid
     \<and> (case get_prop (data ev) ''done'' of None \<Rightarrow> False | Some d \<Rightarrow> truthy d)"

text \<open>The messages of the scenario: a fragment with a given content, and the completion.\<close>

definition fragment_msg :: "string \<Rightarrow> string \<Rightarrow> Message" where
  "fragment_msg mid c =
     \<lparr>messageId = mid, messageType = ''llmStreamChat'', data = JObj [(''content'', JStr c)]\<rparr>"

definition done_msg :: "string \<Rightarrow> Message" where
  "done_msg mid =
     \<lparr>messageId = mid, messageType = ''llmStreamChat'',
      data = JObj [(''done'', JBool True), (''value'', JStr ''done'')]\<rparr>"

section \<open>Invariants of the streaming adapter\<close>

text \<open>
  The chunks yielded so far are the buffer up to \<open>index\<close>. A stream is waiting before
  its completion has arrived, and closing from then on: the listener is gone, and the
  generator has either not seen the flag yet or has yielded everything and returned
  \<^verbatim>\<open>returnVal\<close>.
\<close>

definition consistent :: "stream \<Rightarrow> bool" where
  "consistent s \<longleftrightarrow>
     index s \<le> length (buffer s) \<and> concat (yielded s) = take (index s) (buffer s)"

definition waiting :: "stream \<Rightarrow> bool" where
  "waiting s \<longleftrightarrow> handler_registered s \<and> \<not> is_done s \<and> returned s = None"

definition closing :: "stream \<Rightarrow> bool" where
  "closing s \<longleftrightarrow>
     \<not> handler_registered s \<and> is_done s \<and> consistent s
     \<and> (returned s = None
        \<or> returned s = Some (returnVal s) \<and> index s = length (buffer s))"

definition reachable_state :: "stream \<Rightarrow> bool" where
  "reachable_state s \<longleftrightarrow> waiting s \<and> consistent s \<or> closing s"

section \<open>Properties of the dispatcher and of the responder\<close>

lemma delays_underscore [simp]: "delays (fst (underscore_postToIde env mt d mid)) = []"
  by (simp add: underscore_postToIde_def delays_def)

lemma delays_Nil [simp]: "delays [] = []"
  by (simp add: delays_def)

lemma delays_Cons [simp]: "delays (e # fx) = delay_of e @ delays fx"
  by (simp add: delays_def)

lemma delays_append [simp]: "delays (fx @ gx) = delays fx @ delays gx"
  by (simp add: delays_def)

lemma event_loop_success:
  assumes "\<not> isl (snd (underscore_postToIde (env a) mt d mid))"
  shows "event_loop env mt d mid a = [(a, fst (underscore_postToIde (env a) mt d mid), Inr ())]"
proof -
  obtain fx r where u: "underscore_postToIde (env a) mt d mid = (fx, r)"
    by (cases "underscore_postToIde (env a) mt d mid")
  with assms obtain v where "r = Inr v" by (cases r) auto
  with u have p: "postToIde (env a) mt d mid a = (fx, Inr ())"
    by (simp add: postToIde_def)
  have "scheduled fx = None"
    using scheduled_underscore [of "env a" mt d mid] u by simp
  with p u show ?thesis
    by (simp add: event_loop.simps [of env mt d mid a])
qed

lemma event_loop_retry:
  assumes "isl (snd (underscore_postToIde (env a) mt d mid))" and "a < 5" and "a' = a + 1"
    and "ms = 2 ^ a * 1000"
  shows "event_loop env mt d mid a =
           (a, fst (underscore_postToIde (env a) mt d mid) @
                 [ConsoleLog (''Attempt '' @ show_nat a @ '' failed. Retrying...'') [],
                  SetTimeout (Retry mt d mid a') ms], Inr ())
           # event_loop env mt d mid a'"
proof -
  obtain fx r where u: "underscore_postToIde (env a) mt d mid = (fx, r)"
    by (cases "underscore_postToIde (env a) mt d mid")
  with assms obtain err where "r = Inl err" by (cases r) auto
  with u assms have p: "postToIde (env a) mt d mid a =
      (fx @ [ConsoleLog (''Attempt '' @ show_nat a @ '' failed. Retrying...'') [],
             SetTimeout (Retry mt d mid (a + 1)) (2 ^ a * 1000)], Inr ())"
    by (simp add: postToIde_def)
  have "scheduled fx = None"
    using scheduled_underscore [of "env a" mt d mid] u by simp
  with p u assms(3,4) show ?thesis
    by (simp add: event_loop.simps [of env mt d mid a] scheduled_append)
qed

lemma event_loop_give_up:
  assumes "isl (snd (underscore_postToIde (env a) mt d mid))" and "\<not> a < 5"
  shows "event_loop env mt d mid a =
           [(a, fst (underscore_postToIde (env a) mt d mid) @
                 [ConsoleError ''Max attempts reached. Message could not be sent.''
                    (projl (snd (underscore_postToIde (env a) mt d mid)))], Inr ())]"
proof -
  obtain fx r where u: "underscore_postToIde (env a) mt d mid = (fx, r)"
    by (cases "underscore_postToIde (env a) mt d mid")
  with assms obtain err where "r = Inl err" by (cases r) auto
  with u assms have p: "postToIde (env a) mt d mid a =
      (fx @ [ConsoleError ''Max attempts reached. Message could not be sent.'' err], Inr ())"
    by (simp add: postToIde_def)
  have "scheduled fx = None"
    using scheduled_underscore [of "env a" mt d mid] u by simp
  with p u \<open>r = Inl err\<close> show ?thesis
    by (simp add: event_loop.simps [of env mt d mid a] scheduled_append)
qed

lemma event_loop_all_fail:
  assumes "\<forall>n\<le>5. isl (snd (underscore_postToIde (env n) mt d mid))"
  shows "event_loop env mt d mid 0 =
     [(0, fst (underscore_postToIde (env 0) mt d mid) @
            [ConsoleLog (''Attempt '' @ show_nat 0 @ '' failed. Retrying...'') [],
             SetTimeout (Retry mt d mid 1) 1000], Inr ()),
      (1, fst (underscore_postToIde (env 1) mt d mid) @
            [ConsoleLog (''Attempt '' @ show_nat 1 @ '' failed. Retrying...'') [],
             SetTimeout (Retry mt d mid 2) 2000], Inr ()),
      (2, fst (underscore_postToIde (env 2) mt d mid) @
            [ConsoleLog (''Attempt '' @ show_nat 2 @ '' failed. Retrying...'') [],
             SetTimeout (Retry mt d mid 3) 4000], Inr ()),
      (3, fst (underscore_postToIde (env 3) mt d mid) @
            [ConsoleLog (''Attempt '' @ show_nat 3 @ '' failed. Retrying...'') [],
             SetTimeout (Retry mt d mid 4) 8000], Inr ()),
      (4, fst (underscore_postToIde (env 4) mt d mid) @
            [ConsoleLog (''Attempt '' @ show_nat 4 @ '' failed. Retrying...'') [],
             SetTimeout (Retry mt d mid 5) 16000], Inr ()),
      (5, fst (underscore_postToIde (env 5) mt d mid) @
            [ConsoleError ''Max attempts reached. Message could not be sent.''
               (projl (snd (underscore_postToIde (env 5) mt d mid)))], Inr ())]"
proof -
  have f: "isl (snd (underscore_postToIde (env 0) mt d mid))"
          "isl (snd (underscore_postToIde (env 1) mt d mid))"
          "isl (snd (underscore_postToIde (env 2) mt d mid))"
          "isl (snd (underscore_postToIde (env 3) mt d mid))"
          "isl (snd (underscore_postToIde (env 4) mt d mid))"
          "isl (snd (underscore_postToIde (env 5) mt d mid))"
    using assms by simp_all
  note e0 = event_loop_retry [of env 0 mt d mid 1 1000, OF f(1)]
  note e1 = event_loop_retry [of env 1 mt d mid 2 2000, OF f(2)]
  note e2 = event_loop_retry [of env 2 mt d mid 3 4000, OF f(3)]
  note e3 = event_loop_retry [of env 3 mt d mid 4 8000, OF f(4)]
  note e4 = event_loop_retry [of env 4 mt d mid 5 16000, OF f(5)]
  note e5 = event_loop_give_up [of env 5 mt d mid, OF f(6)]
  have "event_loop env mt d mid 5 = [(5, fst (underscore_postToIde (env 5) mt d mid) @
            [ConsoleError ''Max attempts reached. Message could not be sent.''
               (projl (snd (underscore_postToIde (env 5) mt d mid)))], Inr ())]"
    by (rule e5) simp
  moreover have "event_loop env mt d mid 4 =
      (4, fst (underscore_postToIde (env 4) mt d mid) @
            [ConsoleLog (''Attempt '' @ show_nat 4 @ '' failed. Retrying...'') [],
             SetTimeout (Retry mt d mid 5) 16000], Inr ()) # event_loop env mt d mid 5"
    by (rule e4) simp_all
  moreover have "event_loop env mt d mid 3 =
      (3, fst (underscore_postToIde (env 3) mt d mid) @
            [ConsoleLog (''Attempt '' @ show_nat 3 @ '' failed. Retrying...'') [],
             SetTimeout (Retry mt d mid 4) 8000], Inr ()) # event_loop env mt d mid 4"
    by (rule e3) simp_all
  moreover have "event_loop env mt d mid 2 =
      (2, fst (underscore_postToIde (env 2) mt d mid) @
            [ConsoleLog (''Attempt '' @ show_nat 2 @ '' failed. Retrying...'') [],
             SetTimeout (Retry mt d mid 3) 4000], Inr ()) # event_loop env mt d mid 3"
    by (rule e2) simp_all
  moreover have "event_loop env mt d mid 1 =
      (1, fst (underscore_postToIde (env 1) mt d mid) @
            [ConsoleLog (''Attempt '' @ show_nat 1 @ '' failed. Retrying...'') [],
             SetTimeout (Retry mt d mid 2) 2000], Inr ()) # event_loop env mt d mid 2"
    by (rule e1) simp_all
  moreover have "event_loop env mt d mid 0 =
      (0, fst (underscore_postToIde (env 0) mt d mid) @
            [ConsoleLog (''Attempt '' @ show_nat 0 @ '' failed. Retrying...'') [],
             SetTimeout (Retry mt d mid 1) 1000], Inr ()) # event_loop env mt d mid 1"
    by (rule e0) simp_all
  ultimately show ?thesis by (simp only:)
qed

text \<open>
  Claim C3. A send whose transport attempt throws on attempts 0 to 3 and returns on
  attempt 4 makes the five calls numbered 0 to 4; the four failed calls schedule, in this
  order, timers of 1000, 2000, 4000 and 8000 milliseconds (\<open>2 ^ n\<close> seconds for attempt
  \<open>n\<close>), the fifth call schedules none and has the effects of the successful transport
  call, and no call throws.
\<close>
theorem postToIde_backoff_delays:
  assumes "\<forall>n<4. isl (snd (underscore_postToIde (env n) mt d mid))"
    and "\<not> isl (snd (underscore_postToIde (env 4) mt d mid))"
  shows "attempts (event_loop env mt d mid 0) = [0, 1, 2, 3, 4]
       \<and> map (\<lambda>c. delays (fst (snd c))) (event_loop env mt d mid 0)
           = [[1000], [2000], [4000], [8000], []]
       \<and> map (\<lambda>c. snd (snd c)) (event_loop env mt d mid 0) = [Inr (), Inr (), Inr (), Inr (), Inr ()]
       \<and> fst (snd (last (event_loop env mt d mid 0)))
           = fst (underscore_postToIde (env 4) mt d mid)"
proof -
  have f: "isl (snd (underscore_postToIde (env 0) mt d mid))"
          "isl (snd (underscore_postToIde (env 1) mt d mid))"
          "isl (snd (underscore_postToIde (env 2) mt d mid))"
          "isl (snd (underscore_postToIde (env 3) mt d mid))"
    using assms(1) by simp_all
  have e: "event_loop env mt d mid 0 =
     [(0, fst (underscore_postToIde (env 0) mt d mid) @
            [ConsoleLog (''Attempt '' @ show_nat 0 @ '' failed. Retrying...'') [],
             SetTimeout (Retry mt d mid 1) 1000], Inr ()),
      (1, fst (underscore_postToIde (env 1) mt d mid) @
            [ConsoleLog (''Attempt '' @ show_nat 1 @ '' failed. Retrying...'') [],
             SetTimeout (Retry mt d mid 2) 2000], Inr ()),
      (2, fst (underscore_postToIde (env 2) mt d mid) @
            [ConsoleLog (''Attempt '' @ show_nat 2 @ '' failed. Retrying...'') [],
             SetTimeout (Retry mt d mid 3) 4000], Inr ()),
      (3, fst (underscore_postToIde (env 3) mt d mid) @
            [ConsoleLog (''Attempt '' @ show_nat 3 @ '' failed. Retrying...'') [],
             SetTimeout (Retry mt d mid 4) 8000], Inr ()),
      (4, fst (underscore_postToIde (env 4) mt d mid), Inr ())]"
    using f assms(2) event_loop_retry [of env 0 mt d mid 1 1000]
      event_loop_retry [of env 1 mt d mid 2 2000]
      event_loop_retry [of env 2 mt d mid 3 4000] event_loop_retry [of env 3 mt d mid 4 8000]
      event_loop_success [of env 4 mt d mid]
    by simp
  show ?thesis
    unfolding e by (simp add: attempts_def)
qed

theorem postToIde_backoff_delays_witness:
  "attempts (event_loop (bridge_from 4) ''errorPopup'' JNull None 0) = [0, 1, 2, 3, 4]
   \<and> map (\<lambda>c. delays (fst (snd c))) (event_loop (bridge_from 4) ''errorPopup'' JNull None 0)
       = [[1000], [2000], [4000], [8000], []]
   \<and> fst (snd (last (event_loop (bridge_from 4) ''errorPopup'' JNull None 0)))
       = [PostIntellijMessage ''errorPopup'' JNull ''u-1'']"
  using postToIde_backoff_delays [of "bridge_from 4" "''errorPopup''" JNull None]
  by (simp add: underscore_postToIde_def bridge_from_def id_or_fresh_def)

text \<open>
  Claim C4, as the code has it. A send whose transport attempt throws every time makes
  six calls, numbered 0 to 5: the guard \<^verbatim>\<open>attempt < 5\<close> still schedules a retry after
  the failure of attempt 4, 16000 milliseconds later. The sixth call schedules nothing
  and ends with the \<^verbatim>\<open>console.error\<close> line; no call throws.
\<close>
theorem postToIde_gives_up:
  assumes "\<forall>n\<le>5. isl (snd (underscore_postToIde (env n) mt d mid))"
  shows "attempts (event_loop env mt d mid 0) = [0, 1, 2, 3, 4, 5]
       \<and> map (\<lambda>c. delays (fst (snd c))) (event_loop env mt d mid 0)
           = [[1000], [2000], [4000], [8000], [16000], []]
       \<and> map (\<lambda>c. snd (snd c)) (event_loop env mt d mid 0)
           = [Inr (), Inr (), Inr (), Inr (), Inr (), Inr ()]
       \<and> fst (snd (last (event_loop env mt d mid 0)))
           = fst (underscore_postToIde (env 5) mt d mid) @
             [ConsoleError ''Max attempts reached. Message could not be sent.''
                (projl (snd (underscore_postToIde (env 5) mt d mid)))]"
  unfolding event_loop_all_fail [OF assms] by (simp add: attempts_def)

theorem postToIde_gives_up_witness:
  "attempts (event_loop (\<lambda>n. jetbrains_without_bridge) ''errorPopup'' JNull None 0)
     = [0, 1, 2, 3, 4, 5]
   \<and> map (\<lambda>c. snd (snd c)) (event_loop (\<lambda>n. jetbrains_without_bridge) ''errorPopup'' JNull None 0)
       = [Inr (), Inr (), Inr (), Inr (), Inr (), Inr ()]"
  using postToIde_gives_up [of "\<lambda>n. jetbrains_without_bridge" "''errorPopup''" JNull None]
  by (simp add: underscore_postToIde_def jetbrains_without_bridge_def)

text \<open>
  The claim as stated (five attempts, numbered 0 to 4, and nothing scheduled after the
  fifth failure) fails where the bridge function never appears: there is a sixth
  attempt, and a fifth timer.
\<close>
theorem postToIde_sixth_attempt:
  "isl (snd (underscore_postToIde jetbrains_without_bridge ''logDevData'' JNull None))
   \<and> attempts (event_loop (\<lambda>n. jetbrains_without_bridge) ''logDevData'' JNull None 0)
     = [0, 1, 2, 3, 4, 5]
   \<and> delays (effects (event_loop (\<lambda>n. jetbrains_without_bridge) ''logDevData'' JNull None 0))
     = [1000, 2000, 4000, 8000, 16000]"
proof -
  have f: "isl (snd (underscore_postToIde jetbrains_without_bridge ''logDevData'' JNull None))"
    by (simp add: underscore_postToIde_def jetbrains_without_bridge_def)
  then have "\<forall>n\<le>5. isl (snd (underscore_postToIde ((\<lambda>n::nat. jetbrains_without_bridge) n)
          ''logDevData'' JNull None))"
    by simp
  from event_loop_all_fail [OF this] f show ?thesis
    by (simp add: attempts_def effects_def)
qed

text \<open>
  Claim C5, as the code has it. With no \<^verbatim>\<open>vscode\<close> handle and no usable bridge, no
  envelope is sent and one line is logged. When the marker is \<^verbatim>\<open>jetbrains\<close> (bridge
  function missing) the selector throws, and the dispatcher schedules a retry while
  \<^verbatim>\<open>attempt < 5\<close>. When the marker is anything else the selector returns normally, and
  the dispatcher schedules nothing.
\<close>
theorem underscore_postToIde_unreachable:
  assumes "unreachable env"
  shows "envelopes_sent (fst (underscore_postToIde env mt d mid)) = []
       \<and> (if ide env = Some ''jetbrains'' then
            underscore_postToIde env mt d mid =
              ([ConsoleLog ''Unable to send message: postIntellijMessage is undefined. ''
                  [JStr mt, d]],
               Inl (Error ''postIntellijMessage is undefined''))
            \<and> (scheduled (fst (postToIde env mt d mid attempt)) \<noteq> None) = (attempt < 5)
          else
            underscore_postToIde env mt d mid =
              ([ConsoleLog ''Unable to send message: vscode is undefined. '' [JStr mt, d]],
               Inr ())
            \<and> scheduled (fst (postToIde env mt d mid attempt)) = None)"
  using assms
  by (simp add: unreachable_def underscore_postToIde_def postToIde_def envelopes_sent_def
      scheduled_append)

theorem underscore_postToIde_unreachable_witness:
  "unreachable jetbrains_without_bridge
   \<and> underscore_postToIde jetbrains_without_bridge ''ping'' JNull None =
       ([ConsoleLog ''Unable to send message: postIntellijMessage is undefined. ''
           [JStr ''ping'', JNull]],
        Inl (Error ''postIntellijMessage is undefined''))
   \<and> unreachable browser_only
   \<and> underscore_postToIde browser_only ''ping'' JNull None =
       ([ConsoleLog ''Unable to send message: vscode is undefined. '' [JStr ''ping'', JNull]],
        Inr ())"
proof -
  have a: "unreachable jetbrains_without_bridge"
    by (simp add: unreachable_def jetbrains_without_bridge_def)
  have b: "unreachable browser_only"
    by (simp add: unreachable_def browser_only_def)
  show ?thesis
    using a b underscore_postToIde_unreachable [OF a, of "''ping''" JNull None 0] underscore_postToIde_unreachable [OF b, of "''ping''" JNull None 0]
    by (simp add: jetbrains_without_bridge_def browser_only_def)
qed

text \<open>
  The claim as stated (an error is raised in every such environment) fails where the
  marker is not \<^verbatim>\<open>jetbrains\<close>: the selector logs and returns, and no retry is driven.
\<close>
theorem underscore_postToIde_returns_normally:
  "unreachable browser_only
   \<and> snd (underscore_postToIde browser_only ''ping'' JNull None) = Inr ()
   \<and> delays (fst (postToIde browser_only ''ping'' JNull None 0)) = []"
  by (simp add: unreachable_def browser_only_def underscore_postToIde_def postToIde_def)

text \<open>
  Claim C10. \<^verbatim>\<open>respondToIde\<close> is one call of the transport selector with the
  identifier the host supplied: it schedules no timer, it sends the one envelope
  \<open>(mid, mt, d)\<close> when a send primitive is reachable and none otherwise, and where the
  marker is \<^verbatim>\<open>jetbrains\<close> and the bridge function is missing the error is thrown to
  the caller, whereas \<^verbatim>\<open>postToIde\<close> in the same environment returns normally.
\<close>
theorem respondToIde_single_attempt:
  "respondToIde env mt d mid = underscore_postToIde env mt d (Some mid)
   \<and> delays (fst (respondToIde env mt d mid)) = []
   \<and> envelopes_sent (fst (respondToIde env mt d mid)) =
       (if unreachable env then [] else [\<lparr>messageId = mid, messageType = mt, data = d\<rparr>])
   \<and> (\<not> vscode env \<and> ide env = Some ''jetbrains'' \<and> \<not> postIntellijMessage env \<longrightarrow>
        snd (respondToIde env mt d mid) = Inl (Error ''postIntellijMessage is undefined'')
        \<and> snd (postToIde env mt d (Some mid) 0) = Inr ())"
  by (simp add: respondToIde_def underscore_postToIde_def postToIde_def envelopes_sent_def
      unreachable_def id_or_fresh_def)

theorem respondToIde_single_attempt_witness:
  "snd (respondToIde jetbrains_without_bridge ''reply'' JNull ''h-7'')
     = Inl (Error ''postIntellijMessage is undefined'')
   \<and> delays (fst (respondToIde jetbrains_without_bridge ''reply'' JNull ''h-7'')) = []
   \<and> envelopes_sent (fst (respondToIde jetbrains_without_bridge ''reply'' JNull ''h-7'')) = []"
  using respondToIde_single_attempt [of jetbrains_without_bridge "''reply''" JNull "''h-7''"]
  by (simp add: jetbrains_without_bridge_def unreachable_def respondToIde_def)

section \<open>Properties of unary calls\<close>

lemma deliver_unregistered:
  "\<not> listening p \<Longrightarrow> foldl (\<lambda>p ev. deliver mid ev p) p evs = p"
  by (induction evs) (simp_all add: deliver_def)

lemma deliver_other_ids:
  "\<forall>m\<in>set evs. messageId m \<noteq> mid \<Longrightarrow> foldl (\<lambda>p ev. deliver mid ev p) p evs = p"
  by (induction evs) (simp_all add: deliver_def ideRequest_handler_def)

lemma ideRequest_unmatched:
  assumes "\<forall>m\<in>set pre. messageId m \<noteq> mid"
  shows "ideRequest mid mt d pre =
           \<lparr>listening = True, resolve_calls = [], call_posted = [(mt, d, mid)]\<rparr>"
  using deliver_other_ids [OF assms] by (simp add: ideRequest_def)

lemma ideRequest_snoc:
  "ideRequest mid mt d (evs @ [ev]) = deliver mid ev (ideRequest mid mt d evs)"
  by (simp add: ideRequest_def)

lemma ideRequest_append:
  "ideRequest mid mt d (evs @ rest) =
     foldl (\<lambda>p ev. deliver mid ev p) (ideRequest mid mt d evs) rest"
  by (simp add: ideRequest_def)

text \<open>
  Claim C2. After a unary call, messages bearing other identifiers leave the promise
  unsettled; the first message bearing the call's identifier calls \<^verbatim>\<open>resolve\<close> once,
  with that message's payload; whatever arrives later, with the same identifier or
  another, changes nothing.
\<close>
theorem ideRequest_resolves_once:
  assumes "\<forall>m\<in>set pre. messageId m \<noteq> mid" and "messageId ev = mid"
  shows "promise_value (ideRequest mid mt d pre) = None
       \<and> resolve_calls (ideRequest mid mt d (pre @ [ev])) = [data ev]
       \<and> promise_value (ideRequest mid mt d (pre @ [ev])) = Some (data ev)
       \<and> ideRequest mid mt d (pre @ [ev] @ later) = ideRequest mid mt d (pre @ [ev])"
proof -
  have a: "ideRequest mid mt d (pre @ [ev]) =
             \<lparr>listening = False, resolve_calls = [data ev], call_posted = [(mt, d, mid)]\<rparr>"
    using assms(2)
    by (simp add: ideRequest_snoc ideRequest_unmatched [OF assms(1)] deliver_def
        ideRequest_handler_def)
  have "ideRequest mid mt d ((pre @ [ev]) @ later) = ideRequest mid mt d (pre @ [ev])"
    unfolding ideRequest_append [of mid mt d "pre @ [ev]" later]
    by (rule deliver_unregistered) (simp add: a)
  then show ?thesis
    by (simp add: a ideRequest_unmatched [OF assms(1)] promise_value_def)
qed

theorem ideRequest_resolves_once_witness:
  "promise_value (ideRequest ''X'' ''echo'' (JObj [(''msg'', JStr ''hi'')])
      [\<lparr>messageId = ''X'', messageType = ''echo'', data = JObj [(''msg'', JStr ''hi'')]\<rparr>])
     = Some (JObj [(''msg'', JStr ''hi'')])
   \<and> ideRequest ''X'' ''echo'' (JObj [(''msg'', JStr ''hi'')])
      [\<lparr>messageId = ''X'', messageType = ''echo'', data = JObj [(''msg'', JStr ''hi'')]\<rparr>,
       \<lparr>messageId = ''X'', messageType = ''echo'', data = JStr ''again''\<rparr>]
     = ideRequest ''X'' ''echo'' (JObj [(''msg'', JStr ''hi'')])
      [\<lparr>messageId = ''X'', messageType = ''echo'', data = JObj [(''msg'', JStr ''hi'')]\<rparr>]"
  using ideRequest_resolves_once [of "[]" "''X''"
      "\<lparr>messageId = ''X'', messageType = ''echo'', data = JObj [(''msg'', JStr ''hi'')]\<rparr>"
      "''echo''" "JObj [(''msg'', JStr ''hi'')]"
      "[\<lparr>messageId = ''X'', messageType = ''echo'', data = JStr ''again''\<rparr>]"]
  by simp

text \<open>
  Claim C7. A pending unary call is resolved by an inbound message if and only if the
  message's identifier equals the call's, then with the message's payload; the
  message's \<^verbatim>\<open>messageType\<close> plays no part.
\<close>
theorem ideRequest_matches_by_id:
  assumes "\<forall>m\<in>set pre. messageId m \<noteq> mid"
  shows "(promise_value (ideRequest mid mt d (pre @ [ev])) \<noteq> None) = (messageId ev = mid)
       \<and> promise_value (ideRequest mid mt d (pre @ [ev])) =
           (if messageId ev = mid then Some (data ev) else None)
       \<and> ideRequest mid mt d (pre @ [ev\<lparr>messageType := kind\<rparr>]) =
           ideRequest mid mt d (pre @ [ev])"
  by (simp add: ideRequest_snoc ideRequest_unmatched [OF assms] deliver_def
      ideRequest_handler_def promise_value_def)

theorem ideRequest_matches_by_id_witness:
  "promise_value (ideRequest ''X'' ''echo'' JNull
      [\<lparr>messageId = ''Y'', messageType = ''echo'', data = JNum 1\<rparr>,
       \<lparr>messageId = ''X'', messageType = ''other'', data = JNum 2\<rparr>]) = Some (JNum 2)"
  using ideRequest_matches_by_id [of "[\<lparr>messageId = ''Y'', messageType = ''echo'', data = JNum 1\<rparr>]" "''X''"
      "''echo''" JNull "\<lparr>messageId = ''X'', messageType = ''other'', data = JNum 2\<rparr>"]
  by simp

section \<open>Properties of the streaming adapter\<close>

lemma inbound_simps [simp]:
  "inbound [] = []"
  "inbound (Inbound ev # es) = ev # inbound es"
  "inbound (Timer # es) = inbound es"
  "inbound (Abort # es) = inbound es"
  "inbound (es @ fs) = inbound es @ inbound fs"
  by (simp_all add: inbound_def)

lemma yield_new_fields [simp]:
  "buffer (yield_new s) = buffer s"
  "is_done (yield_new s) = is_done s"
  "returnVal (yield_new s) = returnVal s"
  "handler_registered (yield_new s) = handler_registered s"
  "abort_listener (yield_new s) = abort_listener s"
  "returned (yield_new s) = returned s"
  "posted (yield_new s) = posted s"
  by (simp_all add: yield_new_def)

lemma yield_new_consistent:
  assumes "consistent s"
  shows "consistent (yield_new s)"
    and "index (yield_new s) = length (buffer s)"
    and "concat (yielded (yield_new s)) = buffer s"
proof -
  from assms have le: "index s \<le> length (buffer s)"
    and c: "concat (yielded s) = take (index s) (buffer s)"
    by (simp_all add: consistent_def)
  show "index (yield_new s) = length (buffer s)"
    using le by (simp add: yield_new_def)
  show "concat (yielded (yield_new s)) = buffer s"
    using le c by (simp add: yield_new_def)
  then show "consistent (yield_new s)"
    using le by (simp add: consistent_def yield_new_def)
qed

lemma returned_update [simp]:
  "consistent (s\<lparr>returned := r\<rparr>) = consistent s"
  "yield_new (s\<lparr>returned := r\<rparr>) = (yield_new s)\<lparr>returned := r\<rparr>"
  by (simp_all add: consistent_def yield_new_def)

lemma stream_handler_consistent:
  "consistent s \<Longrightarrow> consistent (stream_handler mid ev s)"
  by (auto simp: consistent_def stream_handler_def split: option.splits)

lemma step_waiting_fragment:
  assumes "waiting s" and "consistent s" and "\<forall>m\<in>set (inbound_of e). fragment mid m"
  shows "waiting (step mid s e) \<and> consistent (step mid s e)
       \<and> buffer (step mid s e) = buffer s @ concat (map content_of (inbound_of e))"
proof (cases e)
  case (Inbound ev)
  with assms(3) have "fragment mid ev" by simp
  then obtain c where "messageId ev = mid" "get_prop (data ev) ''content'' = Some (JStr c)"
    "\<exists>d. get_prop (data ev) ''done'' = Some d \<and> \<not> truthy d"
    by (auto simp: fragment_def split: option.splits json.splits)
  with assms(1,2) Inbound show ?thesis
    by (auto simp: waiting_def consistent_def stream_handler_def content_of_def)
next
  case Timer
  with assms(1,2) show ?thesis
    by (simp add: waiting_def resume_def yield_new_consistent(1))
next
  case Abort
  with assms(1,2) show ?thesis
    by (simp add: waiting_def consistent_def)
qed

lemma run_waiting_fragments:
  assumes "waiting s" and "consistent s" and "\<forall>m\<in>set (inbound es). fragment mid m"
  shows "waiting (foldl (step mid) s es) \<and> consistent (foldl (step mid) s es)
       \<and> buffer (foldl (step mid) s es) = buffer s @ concat (map content_of (inbound es))"
  using assms
proof (induction es arbitrary: s)
  case Nil
  then show ?case by simp
next
  case (Cons e es)
  have f: "\<forall>m\<in>set (inbound_of e). fragment mid m"
    and r: "\<forall>m\<in>set (inbound es). fragment mid m"
    using Cons.prems(3) by (auto simp: inbound_def)
  note st = step_waiting_fragment [OF Cons.prems(1,2) f]
  from st Cons.IH [of "step mid s e"] r
  show ?case by (simp add: inbound_def)
qed

lemma step_completion:
  assumes "waiting s" and "consistent s" and "completion mid c"
  shows "closing (step mid s (Inbound c))"
    and "buffer (step mid s (Inbound c)) = buffer s"
    and "returnVal (step mid s (Inbound c)) = data c"
    and "yielded (step mid s (Inbound c)) = yielded s"
    and "index (step mid s (Inbound c)) = index s"
  using assms
  by (auto simp: waiting_def consistent_def closing_def completion_def stream_handler_def
      split: option.splits)

lemma step_closing:
  assumes "closing s"
  shows "closing (step mid s e) \<and> buffer (step mid s e) = buffer s
       \<and> returnVal (step mid s e) = returnVal s
       \<and> yielded (yield_new (step mid s e)) = yielded (yield_new s)"
proof (cases e)
  case (Inbound ev)
  with assms show ?thesis by (simp add: closing_def)
next
  case Timer
  from assms have c: "consistent s" by (simp add: closing_def)
  have "yield_new (yield_new s) = yield_new s"
    using yield_new_consistent(2) [OF c] by (simp add: yield_new_def)
  with assms Timer yield_new_consistent [OF c] show ?thesis
    by (auto simp: closing_def resume_def)
next
  case Abort
  with assms show ?thesis
    by (simp add: closing_def consistent_def yield_new_def)
qed

lemma run_closing:
  assumes "closing s"
  shows "closing (foldl (step mid) s es) \<and> buffer (foldl (step mid) s es) = buffer s
       \<and> returnVal (foldl (step mid) s es) = returnVal s
       \<and> yielded (yield_new (foldl (step mid) s es)) = yielded (yield_new s)"
  using assms
proof (induction es arbitrary: s)
  case Nil
  then show ?case by simp
next
  case (Cons e es)
  from step_closing [OF Cons.prems, of mid e] Cons.IH [of "step mid s e"]
  show ?case by simp
qed

lemma resume_closing:
  assumes "closing s"
  shows "yielded (resume s) = yielded (yield_new s)" and "returned (resume s) = Some (returnVal s)"
  using assms by (auto simp: closing_def resume_def yield_new_def)

lemma finish_closing:
  assumes "closing s"
  shows "yielded (resume (foldl (step mid) s es)) = yielded (yield_new s)"
    and "returned (resume (foldl (step mid) s es)) = Some (returnVal s)"
  using run_closing [OF assms, of mid es] resume_closing [of "foldl (step mid) s es"]
  by simp_all

lemma inbound_snoc_split:
  assumes "inbound es = ms @ [c]"
  shows "\<exists>pre post. es = pre @ Inbound c # post \<and> inbound pre = ms \<and> inbound post = []"
  using assms
proof (induction es rule: rev_induct)
  case Nil
  then show ?case by simp
next
  case (snoc e es)
  show ?case
  proof (cases e)
    case (Inbound ev)
    with snoc.prems have "ev = c" "inbound es = ms" by simp_all
    with Inbound show ?thesis by (intro exI [of _ es] exI [of _ "[]"]) simp
  next
    case Timer
    with snoc.prems have "inbound es = ms @ [c]" by simp
    from snoc.IH [OF this] obtain pre post where
      "es = pre @ Inbound c # post" "inbound pre = ms" "inbound post = []" by blast
    with Timer show ?thesis
      by (intro exI [of _ pre] exI [of _ "post @ [Timer]"]) simp
  next
    case Abort
    with snoc.prems have "inbound es = ms @ [c]" by simp
    from snoc.IH [OF this] obtain pre post where
      "es = pre @ Inbound c # post" "inbound pre = ms" "inbound post = []" by blast
    with Abort show ?thesis
      by (intro exI [of _ pre] exI [of _ "post @ [Abort]"]) simp
  qed
qed

lemma start_waiting [simp]: "waiting (stream_start mid mt d ct)"
  and start_consistent [simp]: "consistent (stream_start mid mt d ct)"
  and start_buffer [simp]: "buffer (stream_start mid mt d ct) = []"
  by (simp_all add: waiting_def consistent_def stream_start_def)

lemma stream_fragments_then_completion:
  assumes "\<forall>m\<in>set (inbound pre). fragment mid m" and "completion mid c"
  shows "concat (yielded (ideStreamRequest mid mt d ct (pre @ Inbound c # post)))
           = concat (map content_of (inbound pre))"
    and "returned (ideStreamRequest mid mt d ct (pre @ Inbound c # post)) = Some (data c)"
proof -
  let ?s = "foldl (step mid) (stream_start mid mt d ct) pre"
  let ?t = "step mid ?s (Inbound c)"
  have w: "waiting ?s" "consistent ?s" "buffer ?s = concat (map content_of (inbound pre))"
    using run_waiting_fragments [OF start_waiting start_consistent assms(1)]
    by simp_all
  note c = step_completion [OF w(1,2) assms(2)]
  have run: "ideStreamRequest mid mt d ct (pre @ Inbound c # post)
               = resume (foldl (step mid) ?t post)"
    by (simp add: ideStreamRequest_def)
  have "consistent ?t" using c(1) by (simp add: closing_def)
  from yield_new_consistent(3) [OF this] c(2) w(3)
  have "concat (yielded (yield_new ?t)) = concat (map content_of (inbound pre))" by simp
  then show "concat (yielded (ideStreamRequest mid mt d ct (pre @ Inbound c # post)))
           = concat (map content_of (inbound pre))"
    unfolding run finish_closing(1) [OF c(1)] .
  show "returned (ideStreamRequest mid mt d ct (pre @ Inbound c # post)) = Some (data c)"
    unfolding run finish_closing(2) [OF c(1)] using c(3) by simp
qed

text \<open>
  Claim C1. Whenever the messages that arrive, in order, are fragments for the stream
  followed by one completion, and whatever the moments at which the polling timer fires
  between them, the chunks the generator yields, concatenated, are the fragments'
  contents concatenated in order of arrival, and the generator returns the completion's
  payload.
\<close>
theorem ideStreamRequest_concatenation:
  assumes "inbound events = fragments @ [c]"
    and "\<forall>m\<in>set fragments. fragment mid m"
    and "completion mid c"
  shows "concat (yielded (ideStreamRequest mid mt d ct events))
           = concat (map content_of fragments)
       \<and> returned (ideStreamRequest mid mt d ct events) = Some (data c)"
proof -
  from inbound_snoc_split [OF assms(1)] obtain pre post where
    e: "events = pre @ Inbound c # post" and p: "inbound pre = fragments" by blast
  from assms(2) p have "\<forall>m\<in>set (inbound pre). fragment mid m" by simp
  from stream_fragments_then_completion [OF this assms(3), of mt d ct post] e p
  show ?thesis by simp
qed

lemma fragment_msg_simps [simp]:
  "fragment mid (fragment_msg mid c)" "content_of (fragment_msg mid c) = c"
  by (simp_all add: fragment_def fragment_msg_def content_of_def)

lemma done_msg_simps [simp]:
  "completion mid (done_msg mid)"
  "data (done_msg mid) = JObj [(''done'', JBool True), (''value'', JStr ''done'')]"
  by (simp_all add: completion_def done_msg_def)

theorem ideStreamRequest_concatenation_witness:
  "concat (yielded (ideStreamRequest ''X'' ''llmStreamChat'' JNull False
      [Inbound (fragment_msg ''X'' ''a''), Timer, Inbound (fragment_msg ''X'' ''bc''),
       Inbound (done_msg ''X'')])) = ''abc''
   \<and> returned (ideStreamRequest ''X'' ''llmStreamChat'' JNull False
      [Inbound (fragment_msg ''X'' ''a''), Timer, Inbound (fragment_msg ''X'' ''bc''),
       Inbound (done_msg ''X'')]) = Some (JObj [(''done'', JBool True), (''value'', JStr ''done'')])"
  using ideStreamRequest_concatenation [of "[Inbound (fragment_msg ''X'' ''a''), Timer, Inbound (fragment_msg ''X'' ''bc''),
       Inbound (done_msg ''X'')]" "[fragment_msg ''X'' ''a'', fragment_msg ''X'' ''bc'']"
      "done_msg ''X''" "''X''" "''llmStreamChat''" JNull False]
  by simp

lemma yield_new_idem [simp]: "yield_new (yield_new s) = yield_new s"
  by (simp add: yield_new_def)

lemma step_waiting_idle:
  assumes "waiting s" and "\<forall>m\<in>set (inbound_of e). messageId m \<noteq> mid"
  shows "waiting (step mid s e) \<and> buffer (step mid s e) = buffer s
       \<and> yield_new (step mid s e)\<lparr>posted := p\<rparr> = yield_new s\<lparr>posted := p\<rparr>
       \<and> (consistent s \<longrightarrow> consistent (step mid s e))"
proof (cases e)
  case (Inbound ev)
  with assms show ?thesis by (simp add: stream_handler_def)
next
  case Timer
  with assms show ?thesis by (simp add: waiting_def resume_def yield_new_consistent(1))
next
  case Abort
  with assms show ?thesis by (simp add: waiting_def yield_new_def consistent_def)
qed

lemma run_waiting_idle:
  assumes "waiting s" and "\<forall>m\<in>set (inbound es). messageId m \<noteq> mid"
  shows "waiting (foldl (step mid) s es) \<and> buffer (foldl (step mid) s es) = buffer s
       \<and> yield_new (foldl (step mid) s es)\<lparr>posted := p\<rparr> = yield_new s\<lparr>posted := p\<rparr>
       \<and> (consistent s \<longrightarrow> consistent (foldl (step mid) s es))"
  using assms
proof (induction es arbitrary: s)
  case Nil
  then show ?case by simp
next
  case (Cons e es)
  have f: "\<forall>m\<in>set (inbound_of e). messageId m \<noteq> mid"
    and r: "\<forall>m\<in>set (inbound es). messageId m \<noteq> mid"
    using Cons.prems(2) by (auto simp: inbound_def)
  from step_waiting_idle [OF Cons.prems(1) f, of p] Cons.IH [of "step mid s e"] r
  show ?case by simp
qed

lemma stream_idle_then_completion:
  assumes "waiting s" and "consistent s" and "\<forall>m\<in>set (inbound pre). messageId m \<noteq> mid"
    and "completion mid c"
  shows "yielded (resume (foldl (step mid) s (pre @ Inbound c # post))) = yielded (yield_new s)"
    and "returned (resume (foldl (step mid) s (pre @ Inbound c # post))) = Some (data c)"
proof -
  let ?s = "foldl (step mid) s pre"
  let ?t = "step mid ?s (Inbound c)"
  from run_waiting_idle [OF assms(1,3), of "[]"] assms(2)
  have w: "waiting ?s" "consistent ?s"
    and y: "yield_new ?s\<lparr>posted := []\<rparr> = yield_new s\<lparr>posted := []\<rparr>"
    by simp_all
  note c = step_completion [OF w assms(4)]
  have "yielded (yield_new ?t) = yielded (yield_new ?s)"
    using c(2,4,5) by (simp add: yield_new_def)
  also have "\<dots> = yielded (yield_new ?s\<lparr>posted := []\<rparr>)" by simp
  also have "\<dots> = yielded (yield_new s)" unfolding y by simp
  finally show "yielded (resume (foldl (step mid) s (pre @ Inbound c # post)))
      = yielded (yield_new s)"
    using finish_closing(1) [OF c(1), of mid post] by simp
  show "returned (resume (foldl (step mid) s (pre @ Inbound c # post))) = Some (data c)"
    using finish_closing(2) [OF c(1), of mid post] c(3) by simp
qed

lemma step_reachable_state:
  assumes "reachable_state s"
  shows "reachable_state (step mid s e)"
proof (cases "closing s")
  case True
  from step_closing [OF this, of mid e] show ?thesis by (simp add: reachable_state_def)
next
  case False
  with assms have w: "waiting s" "consistent s" by (simp_all add: reachable_state_def)
  show ?thesis
  proof (cases e)
    case (Inbound ev)
    with w show ?thesis
      by (auto simp: reachable_state_def waiting_def closing_def consistent_def
          stream_handler_def split: option.splits)
  next
    case Timer
    with w show ?thesis
      by (simp add: reachable_state_def waiting_def resume_def yield_new_consistent(1))
  next
    case Abort
    with w show ?thesis
      by (simp add: reachable_state_def waiting_def consistent_def)
  qed
qed

lemma run_reachable_state:
  "reachable_state s \<Longrightarrow> reachable_state (foldl (step mid) s es)"
  by (induction es arbitrary: s) (simp_all add: step_reachable_state)

lemma start_reachable_state [simp]: "reachable_state (stream_start mid mt d ct)"
  by (simp add: reachable_state_def)

lemma step_no_empty_chunk:
  "[] \<notin> set (yielded s) \<Longrightarrow> [] \<notin> set (yielded (step mid s e))"
  by (cases e) (auto simp: stream_handler_def resume_def yield_new_def split: option.splits)

lemma run_no_empty_chunk:
  "[] \<notin> set (yielded s) \<Longrightarrow> [] \<notin> set (yielded (foldl (step mid) s es))"
  by (induction es arbitrary: s) (simp_all add: step_no_empty_chunk)

lemma stream_no_empty_chunk: "[] \<notin> set (yielded (ideStreamRequest mid mt d ct events))"
proof -
  have "[] \<notin> set (yielded (stream_start mid mt d ct))" by (simp add: stream_start_def)
  from run_no_empty_chunk [OF this, of mid events]
  have "[] \<notin> set (yielded (step mid (foldl (step mid) (stream_start mid mt d ct) events) Timer))"
    by (rule step_no_empty_chunk)
  then show ?thesis by (simp add: ideStreamRequest_def)
qed

lemma stream_drained_then_completion:
  assumes "completion mid c"
  shows "yielded (ideStreamRequest mid mt d ct (events @ Timer # Inbound c # post))
           = yielded (ideStreamRequest mid mt d ct (events @ [Timer]))"
proof -
  let ?s = "foldl (step mid) (stream_start mid mt d ct) events"
  let ?t = "resume ?s"
  have l: "ideStreamRequest mid mt d ct (events @ Timer # Inbound c # post)
             = resume (foldl (step mid) ?t ([] @ Inbound c # post))"
    and r: "ideStreamRequest mid mt d ct (events @ [Timer]) = resume ?t"
    by (simp_all add: ideStreamRequest_def)
  have "reachable_state ?s" by (simp add: run_reachable_state)
  then consider "waiting ?s" "consistent ?s" | "closing ?s"
    by (auto simp: reachable_state_def)
  then show ?thesis
  proof cases
    case 1
    then have t: "?t = yield_new ?s" "waiting ?t" "consistent ?t"
      by (simp_all add: waiting_def resume_def yield_new_consistent(1))
    have "yielded (resume (foldl (step mid) ?t ([] @ Inbound c # post))) = yielded (yield_new ?t)"
      by (rule stream_idle_then_completion(1) [OF t(2,3) _ assms]) simp
    moreover have "resume ?t = yield_new ?t"
      using t(2) by (simp add: waiting_def resume_def)
    ultimately show ?thesis unfolding l r by simp
  next
    case 2
    from step_closing [OF this, of mid Timer] have t: "closing ?t" by simp
    then have "step mid ?t (Inbound c) = ?t" by (simp add: closing_def)
    then have "yielded (resume (foldl (step mid) ?t ([] @ Inbound c # post)))
                 = yielded (yield_new ?t)"
      using finish_closing(1) [OF t, of mid post] by simp
    with resume_closing(1) [OF t] show ?thesis unfolding l r by simp
  qed
qed

text \<open>
  Claim C9. If no message for the stream arrives before its completion, the generator
  yields nothing and returns the completion's payload. Whatever the events, no yielded
  chunk is empty. And a completion that arrives right after a poll, when the buffer has
  just been yielded in full, adds no chunk.
\<close>
theorem ideStreamRequest_no_empty_chunk:
  "((\<forall>m\<in>set (inbound pre). messageId m \<noteq> mid) \<and> completion mid c \<longrightarrow>
      yielded (ideStreamRequest mid mt d ct (pre @ Inbound c # post)) = []
      \<and> returned (ideStreamRequest mid mt d ct (pre @ Inbound c # post)) = Some (data c))
   \<and> [] \<notin> set (yielded (ideStreamRequest mid mt d ct events))
   \<and> (completion mid c \<longrightarrow>
        yielded (ideStreamRequest mid mt d ct (events @ Timer # Inbound c # post))
          = yielded (ideStreamRequest mid mt d ct (events @ [Timer])))"
proof (intro conjI impI)
  assume a: "(\<forall>m\<in>set (inbound pre). messageId m \<noteq> mid) \<and> completion mid c"
  have y: "yielded (yield_new (stream_start mid mt d ct)) = []"
    by (simp add: yield_new_def stream_start_def)
  have "yielded (resume (foldl (step mid) (stream_start mid mt d ct) (pre @ Inbound c # post)))
          = yielded (yield_new (stream_start mid mt d ct))"
    using a by (intro stream_idle_then_completion(1)) simp_all
  with y show "yielded (ideStreamRequest mid mt d ct (pre @ Inbound c # post)) = []"
    by (simp add: ideStreamRequest_def)
  have "returned (resume (foldl (step mid) (stream_start mid mt d ct) (pre @ Inbound c # post)))
          = Some (data c)"
    using a by (intro stream_idle_then_completion(2)) simp_all
  then show "returned (ideStreamRequest mid mt d ct (pre @ Inbound c # post)) = Some (data c)"
    by (simp add: ideStreamRequest_def)
next
  show "[] \<notin> set (yielded (ideStreamRequest mid mt d ct events))"
    by (rule stream_no_empty_chunk)
next
  assume "completion mid c"
  then show "yielded (ideStreamRequest mid mt d ct (events @ Timer # Inbound c # post))
          = yielded (ideStreamRequest mid mt d ct (events @ [Timer]))"
    by (rule stream_drained_then_completion)
qed

theorem ideStreamRequest_no_empty_chunk_witness:
  "yielded (ideStreamRequest ''X'' ''llmStreamChat'' JNull False
      [Timer, Inbound (done_msg ''X''), Timer]) = []
   \<and> returned (ideStreamRequest ''X'' ''llmStreamChat'' JNull False
      [Timer, Inbound (done_msg ''X''), Timer])
       = Some (JObj [(''done'', JBool True), (''value'', JStr ''done'')])
   \<and> yielded (ideStreamRequest ''X'' ''llmStreamChat'' JNull False
      [Inbound (fragment_msg ''X'' ''a''), Timer, Inbound (done_msg ''X''), Timer])
       = yielded (ideStreamRequest ''X'' ''llmStreamChat'' JNull False
      [Inbound (fragment_msg ''X'' ''a''), Timer])"
  using ideStreamRequest_no_empty_chunk [of "[Timer]" "''X''" "done_msg ''X''" "''llmStreamChat''" JNull False "[Timer]"
      "[Inbound (fragment_msg ''X'' ''a'')]"]
  by simp

lemma run_idle_fields:
  assumes "waiting s" and "inbound es = []"
  shows "waiting (foldl (step mid) s es)
       \<and> buffer (foldl (step mid) s es) = buffer s
       \<and> index (foldl (step mid) s es) = index (if Timer \<in> set es then yield_new s else s)
       \<and> yielded (foldl (step mid) s es) = yielded (if Timer \<in> set es then yield_new s else s)"
  using assms
proof (induction es arbitrary: s)
  case Nil
  then show ?case by simp
next
  case (Cons e es)
  show ?case
  proof (cases e)
    case (Inbound ev)
    with Cons.prems(2) show ?thesis by simp
  next
    case Timer
    from Cons.prems(1) have r: "step mid s Timer = yield_new s" and w: "waiting (yield_new s)"
      by (simp_all add: waiting_def resume_def)
    from Cons.prems(2) Timer have "inbound es = []" by simp
    from Cons.IH [OF w this] Timer r show ?thesis by simp
  next
    case Abort
    let ?t = "step mid s Abort"
    from Cons.prems(1) have w: "waiting ?t" by (simp add: waiting_def)
    have y: "index (yield_new ?t) = index (yield_new s)" "yielded (yield_new ?t) = yielded (yield_new s)"
      "index ?t = index s" "yielded ?t = yielded s" "buffer ?t = buffer s"
      by (simp_all add: yield_new_def)
    from Cons.prems(2) Abort have "inbound es = []" by simp
    from Cons.IH [OF w this] Abort y show ?thesis by simp
  qed
qed

lemma start_fields:
  "index (stream_start mid mt d ct) = 0" "yielded (stream_start mid mt d ct) = []"
  by (simp_all add: stream_start_def)

lemma step_fragment_fields:
  assumes "waiting s"
  shows "waiting (step mid s (Inbound (fragment_msg mid c)))"
    and "buffer (step mid s (Inbound (fragment_msg mid c))) = buffer s @ c"
    and "index (step mid s (Inbound (fragment_msg mid c))) = index s"
    and "yielded (step mid s (Inbound (fragment_msg mid c))) = yielded s"
  using assms by (simp_all add: waiting_def stream_handler_def fragment_msg_def)

lemma scenario_inbound_split:
  assumes "inbound e0 @ fragment_msg mid ''a'' # inbound e1 @ fragment_msg mid ''bc'' # inbound rest
             = [fragment_msg mid ''a'', fragment_msg mid ''bc'', done_msg mid]"
  shows "inbound e0 = [] \<and> inbound e1 = [] \<and> inbound rest = [done_msg mid]"
proof -
  have ne: "fragment_msg mid ''a'' \<noteq> fragment_msg mid ''bc''"
    "fragment_msg mid ''a'' \<noteq> done_msg mid" "fragment_msg mid ''bc'' \<noteq> done_msg mid"
    by (simp_all add: fragment_msg_def done_msg_def)
  have l: "length (inbound e0) + length (inbound e1) + length (inbound rest) = 1"
    using arg_cong [OF assms, of length] by simp
  show ?thesis
  proof (cases "inbound e0")
    case Nil
    show ?thesis
    proof (cases "inbound e1")
      case Nil
      with \<open>inbound e0 = []\<close> assms show ?thesis by simp
    next
      case (Cons x xs)
      with \<open>inbound e0 = []\<close> l have "xs = []" "inbound rest = []" by simp_all
      with Cons \<open>inbound e0 = []\<close> assms ne show ?thesis by simp
    qed
  next
    case (Cons x xs)
    with l have "xs = []" "inbound e1 = []" "inbound rest = []" by simp_all
    with Cons assms ne show ?thesis by simp
  qed
qed

lemma stream_scenario_chunks:
  assumes "inbound events = [fragment_msg mid ''a'', fragment_msg mid ''bc'', done_msg mid]"
    and "events = e0 @ Inbound (fragment_msg mid ''a'') # e1 @ Inbound (fragment_msg mid ''bc'') # rest"
  shows "yielded (ideStreamRequest mid mt d ct events)
           = (if Timer \<in> set e1 then [''a'', ''bc''] else [''abc''])"
proof -
  let ?s1 = "foldl (step mid) (stream_start mid mt d ct) e0"
  let ?s2 = "step mid ?s1 (Inbound (fragment_msg mid ''a''))"
  let ?s3 = "foldl (step mid) ?s2 e1"
  let ?s4 = "step mid ?s3 (Inbound (fragment_msg mid ''bc''))"
  from assms have "inbound e0 @ fragment_msg mid ''a'' # inbound e1 @ fragment_msg mid ''bc'' # inbound rest
             = [fragment_msg mid ''a'', fragment_msg mid ''bc'', done_msg mid]" by simp
  from scenario_inbound_split [OF this]
  have i: "inbound e0 = []" "inbound e1 = []" "inbound rest = [] @ [done_msg mid]" by simp_all
  from inbound_snoc_split [OF i(3)] obtain pre post where
    r: "rest = pre @ Inbound (done_msg mid) # post" and p: "inbound pre = []" by blast
  have y0: "yield_new (stream_start mid mt d ct) = stream_start mid mt d ct"
    by (simp add: yield_new_def stream_start_def)
  from run_idle_fields [OF start_waiting i(1), where mid = mid and ?mid1 = mid and ?mt1 = mt and ?d1 = d and ?ct1 = ct]
  have s1: "waiting ?s1" "buffer ?s1 = []" "index ?s1 = 0" "yielded ?s1 = []"
    by (simp_all add: y0 start_fields)
  note f2 = step_fragment_fields [OF s1(1), of mid "''a''"]
  have s2: "waiting ?s2" "buffer ?s2 = ''a''" "index ?s2 = 0" "yielded ?s2 = []"
    using f2 s1 by simp_all
  have y2: "index (yield_new ?s2) = 1" "yielded (yield_new ?s2) = [''a'']"
    using s2 by (simp_all add: yield_new_def)
  from run_idle_fields [OF s2(1) i(2), of mid]
  have s3: "waiting ?s3" "buffer ?s3 = ''a''"
    "index ?s3 = (if Timer \<in> set e1 then 1 else 0)"
    "yielded ?s3 = (if Timer \<in> set e1 then [''a''] else [])"
    using s2 y2 by simp_all
  note f4 = step_fragment_fields [OF s3(1), of mid "''bc''"]
  have s4: "waiting ?s4" "buffer ?s4 = ''abc''"
    "index ?s4 = (if Timer \<in> set e1 then 1 else 0)"
    "yielded ?s4 = (if Timer \<in> set e1 then [''a''] else [])"
    using f4 s3 by simp_all
  have c4: "consistent ?s4"
    unfolding consistent_def s4 by simp
  have "yielded (resume (foldl (step mid) ?s4 (pre @ Inbound (done_msg mid) # post)))
          = yielded (yield_new ?s4)"
    by (rule stream_idle_then_completion(1) [OF s4(1) c4 _ done_msg_simps(1)]) (simp add: p)
  also have "\<dots> = (if Timer \<in> set e1 then [''a'', ''bc''] else [''abc''])"
    unfolding yield_new_def s4 by simp
  finally show ?thesis
    by (simp add: ideStreamRequest_def assms(2) r)
qed

text \<open>
  Claim C8, as the code has it. With the fragments \<^verbatim>\<open>a\<close> and \<^verbatim>\<open>bc\<close> and then the
  completion \<^verbatim>\<open>{done: true, value: "done"}\<close>, the yielded chunks concatenate to
  \<^verbatim>\<open>abc\<close>; wherever the two fragments stand among the events, the chunks are exactly
  \<^verbatim>\<open>a\<close> then \<^verbatim>\<open>bc\<close> when the timer fires between the two arrivals, and the one
  chunk \<^verbatim>\<open>abc\<close> when it does not; and the generator returns the completion's payload,
  the whole object.
\<close>
theorem ideStreamRequest_scenario:
  assumes "inbound events = [fragment_msg mid ''a'', fragment_msg mid ''bc'', done_msg mid]"
  shows "concat (yielded (ideStreamRequest mid mt d ct events)) = ''abc''
       \<and> returned (ideStreamRequest mid mt d ct events)
           = Some (JObj [(''done'', JBool True), (''value'', JStr ''done'')])
       \<and> (\<forall>e0 e1 rest.
            events = e0 @ Inbound (fragment_msg mid ''a'') # e1 @
                       Inbound (fragment_msg mid ''bc'') # rest \<longrightarrow>
            yielded (ideStreamRequest mid mt d ct events)
              = (if Timer \<in> set e1 then [''a'', ''bc''] else [''abc'']))"
proof (intro conjI allI impI)
  have i: "inbound events = [fragment_msg mid ''a'', fragment_msg mid ''bc''] @ [done_msg mid]"
    using assms by simp
  from inbound_snoc_split [OF i] obtain pre post where
    e: "events = pre @ Inbound (done_msg mid) # post"
    and p: "inbound pre = [fragment_msg mid ''a'', fragment_msg mid ''bc'']" by blast
  have f: "\<forall>m\<in>set (inbound pre). fragment mid m" by (simp add: p)
  from stream_fragments_then_completion(1) [OF f done_msg_simps(1), of mt d ct post]
  show "concat (yielded (ideStreamRequest mid mt d ct events)) = ''abc''"
    by (simp add: e p)
  from stream_fragments_then_completion(2) [OF f done_msg_simps(1), of mt d ct post]
  show "returned (ideStreamRequest mid mt d ct events)
          = Some (JObj [(''done'', JBool True), (''value'', JStr ''done'')])"
    by (simp add: e)
next
  fix e0 e1 rest
  assume "events = e0 @ Inbound (fragment_msg mid ''a'') # e1 @
                     Inbound (fragment_msg mid ''bc'') # rest"
  with assms show "yielded (ideStreamRequest mid mt d ct events)
                     = (if Timer \<in> set e1 then [''a'', ''bc''] else [''abc''])"
    by (rule stream_scenario_chunks)
qed

theorem ideStreamRequest_scenario_witness:
  "concat (yielded (ideStreamRequest ''X'' ''llmStreamChat'' JNull True
      [Timer, Inbound (fragment_msg ''X'' ''a''), Abort, Timer, Timer,
       Inbound (fragment_msg ''X'' ''bc''), Timer, Inbound (done_msg ''X'')])) = ''abc''
   \<and> returned (ideStreamRequest ''X'' ''llmStreamChat'' JNull True
      [Timer, Inbound (fragment_msg ''X'' ''a''), Abort, Timer, Timer,
       Inbound (fragment_msg ''X'' ''bc''), Timer, Inbound (done_msg ''X'')])
       = Some (JObj [(''done'', JBool True), (''value'', JStr ''done'')])
   \<and> yielded (ideStreamRequest ''X'' ''llmStreamChat'' JNull True
      [Timer, Inbound (fragment_msg ''X'' ''a''), Abort, Timer, Timer,
       Inbound (fragment_msg ''X'' ''bc''), Timer, Inbound (done_msg ''X'')]) = [''a'', ''bc'']"
proof -
  let ?E = "[Timer, Inbound (fragment_msg ''X'' ''a''), Abort, Timer, Timer,
       Inbound (fragment_msg ''X'' ''bc''), Timer, Inbound (done_msg ''X'')]"
  have i: "inbound ?E = [fragment_msg ''X'' ''a'', fragment_msg ''X'' ''bc'', done_msg ''X'']"
    by simp
  note t = ideStreamRequest_scenario [OF i, of "''llmStreamChat''" JNull True]
  have "?E = [Timer] @ Inbound (fragment_msg ''X'' ''a'') # [Abort, Timer, Timer] @
               Inbound (fragment_msg ''X'' ''bc'') # [Timer, Inbound (done_msg ''X'')]"
    by simp
  with t have "yielded (ideStreamRequest ''X'' ''llmStreamChat'' JNull True ?E)
                 = (if Timer \<in> set [Abort, Timer, Timer] then [''a'', ''bc''] else [''abc''])"
    by blast
  with t show ?thesis by simp
qed

text \<open>
  The claim as stated fails twice: the value returned is the payload object, not the
  string \<^verbatim>\<open>done\<close>; and when the two fragments arrive between two polls they are
  yielded as the one chunk \<^verbatim>\<open>abc\<close>.
\<close>
theorem ideStreamRequest_scenario_terminal_value:
  "returned (ideStreamRequest ''X'' ''llmStreamChat'' JNull False
      [Inbound (fragment_msg ''X'' ''a''), Timer, Inbound (fragment_msg ''X'' ''bc''), Timer,
       Inbound (done_msg ''X'')])
     = Some (JObj [(''done'', JBool True), (''value'', JStr ''done'')])
   \<and> returned (ideStreamRequest ''X'' ''llmStreamChat'' JNull False
      [Inbound (fragment_msg ''X'' ''a''), Timer, Inbound (fragment_msg ''X'' ''bc''), Timer,
       Inbound (done_msg ''X'')]) \<noteq> Some (JStr ''done'')
   \<and> yielded (ideStreamRequest ''X'' ''llmStreamChat'' JNull False
      [Inbound (fragment_msg ''X'' ''a''), Inbound (fragment_msg ''X'' ''bc''),
       Inbound (done_msg ''X'')]) = [''abc'']"
  by (simp add: ideStreamRequest_def stream_start_def stream_handler_def fragment_msg_def
      done_msg_def resume_def yield_new_def)

lemma envelopes_sent_simps [simp]:
  "envelopes_sent [] = []"
  "envelopes_sent (e # fx) = sent_of e @ envelopes_sent fx"
  "envelopes_sent (fx @ gx) = envelopes_sent fx @ envelopes_sent gx"
  by (simp_all add: envelopes_sent_def)

lemma effects_simps [simp]:
  "effects [] = []"
  "effects (c # cs) = fst (snd c) @ effects cs"
  by (simp_all add: effects_def)

lemma envelopes_sent_underscore:
  "envelopes_sent (fst (underscore_postToIde env mt d mid)) =
     (if unreachable env then [] else [\<lparr>messageId = id_or_fresh env mid, messageType = mt, data = d\<rparr>])"
  by (simp add: underscore_postToIde_def unreachable_def)

lemma isl_underscore_bridge:
  "isl (snd (underscore_postToIde env mt d mid)) = bridge_missing env"
  by (simp add: underscore_postToIde_def bridge_missing_def)

lemma bridge_missing_unreachable: "bridge_missing env \<Longrightarrow> unreachable env"
  by (simp add: bridge_missing_def unreachable_def)

lemma event_loop_sends_from:
  assumes "a \<le> 5"
  shows "envelopes_sent (effects (event_loop env mt d (Some mid) a)) =
           (if \<exists>k. a \<le> k \<and> k \<le> 5 \<and> \<not> unreachable (env k)
                    \<and> (\<forall>j. a \<le> j \<and> j < k \<longrightarrow> bridge_missing (env j))
            then [\<lparr>messageId = mid, messageType = mt, data = d\<rparr>] else [])"
  using assms
proof (induction "5 - a" arbitrary: a)
  case 0
  then have a: "a = 5" by simp
  have q: "(\<exists>k. a \<le> k \<and> k \<le> 5 \<and> \<not> unreachable (env k)
                    \<and> (\<forall>j. a \<le> j \<and> j < k \<longrightarrow> bridge_missing (env j)))
             = (\<not> unreachable (env a))"
  proof
    assume "\<exists>k. a \<le> k \<and> k \<le> 5 \<and> \<not> unreachable (env k)
                    \<and> (\<forall>j. a \<le> j \<and> j < k \<longrightarrow> bridge_missing (env j))"
    then obtain k where "a \<le> k" "k \<le> 5" "\<not> unreachable (env k)" by blast
    with a have "k = a" by simp
    with \<open>\<not> unreachable (env k)\<close> show "\<not> unreachable (env a)" by simp
  next
    assume "\<not> unreachable (env a)"
    with a show "\<exists>k. a \<le> k \<and> k \<le> 5 \<and> \<not> unreachable (env k)
                    \<and> (\<forall>j. a \<le> j \<and> j < k \<longrightarrow> bridge_missing (env j))"
      by (intro exI [of _ a]) auto
  qed
  show ?case
  proof (cases "bridge_missing (env a)")
    case True
    then have i: "isl (snd (underscore_postToIde (env a) mt d (Some mid)))"
      by (simp add: isl_underscore_bridge)
    have n: "\<not> a < 5" using a by simp
    from True have "unreachable (env a)" by (rule bridge_missing_unreachable)
    then show ?thesis
      unfolding q
      by (simp add: event_loop_give_up [of env a mt d "Some mid", OF i n]
          envelopes_sent_underscore)
  next
    case False
    then have i: "\<not> isl (snd (underscore_postToIde (env a) mt d (Some mid)))"
      by (simp add: isl_underscore_bridge)
    show ?thesis
      unfolding q
      by (simp add: event_loop_success [of env a mt d "Some mid", OF i]
          envelopes_sent_underscore id_or_fresh_def)
  qed
next
  case (Suc n)
  then have lt: "a < 5" by simp
  show ?case
  proof (cases "bridge_missing (env a)")
    case True
    then have i: "isl (snd (underscore_postToIde (env a) mt d (Some mid)))"
      by (simp add: isl_underscore_bridge)
    from True have u: "unreachable (env a)" by (rule bridge_missing_unreachable)
    have q: "(\<exists>k. a \<le> k \<and> k \<le> 5 \<and> \<not> unreachable (env k)
                    \<and> (\<forall>j. a \<le> j \<and> j < k \<longrightarrow> bridge_missing (env j)))
             = (\<exists>k. a + 1 \<le> k \<and> k \<le> 5 \<and> \<not> unreachable (env k)
                    \<and> (\<forall>j. a + 1 \<le> j \<and> j < k \<longrightarrow> bridge_missing (env j)))"
      (is "?L = ?R")
    proof
      assume ?L
      then obtain k where k: "a \<le> k" "k \<le> 5" "\<not> unreachable (env k)"
        "\<forall>j. a \<le> j \<and> j < k \<longrightarrow> bridge_missing (env j)" by blast
      with u have "k \<noteq> a" by auto
      with k(1) have "a + 1 \<le> k" by simp
      with k show ?R by auto
    next
      assume ?R
      then obtain k where k: "a + 1 \<le> k" "k \<le> 5" "\<not> unreachable (env k)"
        "\<forall>j. a + 1 \<le> j \<and> j < k \<longrightarrow> bridge_missing (env j)" by blast
      have "\<forall>j. a \<le> j \<and> j < k \<longrightarrow> bridge_missing (env j)"
      proof (intro allI impI)
        fix j assume j: "a \<le> j \<and> j < k"
        show "bridge_missing (env j)"
        proof (cases "j = a")
          case True
          with \<open>bridge_missing (env a)\<close> show ?thesis by simp
        next
          case False
          with j have "a + 1 \<le> j \<and> j < k" by simp
          with k(4) show ?thesis by blast
        qed
      qed
      with k show ?L by (intro exI [of _ k]) auto
    qed
    have "n = 5 - (a + 1)" "a + 1 \<le> 5" using Suc.hyps(2) by simp_all
    note ih = Suc.hyps(1) [OF this]
    have "envelopes_sent (effects (event_loop env mt d (Some mid) a))
            = envelopes_sent (effects (event_loop env mt d (Some mid) (a + 1)))"
      using u
      by (simp add: event_loop_retry [of env a mt d "Some mid" "a + 1" "2 ^ a * 1000", OF i lt refl refl]
          envelopes_sent_underscore)
    then show ?thesis unfolding q ih .
  next
    case False
    then have i: "\<not> isl (snd (underscore_postToIde (env a) mt d (Some mid)))"
      by (simp add: isl_underscore_bridge)
    have q: "(\<exists>k. a \<le> k \<and> k \<le> 5 \<and> \<not> unreachable (env k)
                    \<and> (\<forall>j. a \<le> j \<and> j < k \<longrightarrow> bridge_missing (env j)))
             = (\<not> unreachable (env a))"
      (is "?L = ?R")
    proof
      assume ?L
      then obtain k where k: "a \<le> k" "k \<le> 5" "\<not> unreachable (env k)"
        "\<forall>j. a \<le> j \<and> j < k \<longrightarrow> bridge_missing (env j)" by blast
      have "k = a"
      proof (rule ccontr)
        assume "k \<noteq> a"
        with k(1) have "a \<le> a \<and> a < k" by simp
        with k(4) have "bridge_missing (env a)" by blast
        with False show False by simp
      qed
      with k(3) show ?R by simp
    next
      assume ?R
      with lt show ?L by (intro exI [of _ a]) auto
    qed
    show ?thesis
      unfolding q
      by (simp add: event_loop_success [of env a mt d "Some mid", OF i]
          envelopes_sent_underscore id_or_fresh_def)
  qed
qed

lemma event_loop_delivers:
  "envelopes_sent (effects (event_loop env mt d (Some mid) 0)) =
     (if delivers env then [\<lparr>messageId = mid, messageType = mt, data = d\<rparr>] else [])"
proof -
  have "delivers env = (\<exists>k. 0 \<le> k \<and> k \<le> 5 \<and> \<not> unreachable (env k)
                    \<and> (\<forall>j. 0 \<le> j \<and> j < k \<longrightarrow> bridge_missing (env j)))"
    by (auto simp: delivers_def)
  then show ?thesis
    using event_loop_sends_from [of 0 env mt d mid] by simp
qed

lemma step_posted_update:
  "e \<noteq> Abort \<Longrightarrow> step mid (s\<lparr>posted := p\<rparr>) e = (step mid s e)\<lparr>posted := p\<rparr>"
  by (cases e) (simp_all add: stream_handler_def resume_def yield_new_def split: option.splits)

lemma run_posted_update:
  "Abort \<notin> set es \<Longrightarrow>
     foldl (step mid) (s\<lparr>posted := p\<rparr>) es = (foldl (step mid) s es)\<lparr>posted := p\<rparr>"
proof (induction es arbitrary: s)
  case Nil
  then show ?case by simp
next
  case (Cons e es)
  then have "e \<noteq> Abort" "Abort \<notin> set es" by auto
  with Cons.IH [of "step mid s e"] show ?case by (simp add: step_posted_update)
qed

lemma step_keeps_posted:
  "e \<noteq> Abort \<Longrightarrow> posted (step mid s e) = posted s \<and> abort_listener (step mid s e) = abort_listener s"
  by (cases e) (simp_all add: stream_handler_def resume_def split: option.splits)

lemma run_keeps_posted:
  "Abort \<notin> set es \<Longrightarrow>
     posted (foldl (step mid) s es) = posted s
     \<and> abort_listener (foldl (step mid) s es) = abort_listener s"
proof (induction es arbitrary: s)
  case Nil
  then show ?case by simp
next
  case (Cons e es)
  then have "e \<noteq> Abort" "Abort \<notin> set es" by auto
  with Cons.IH [of "step mid s e"] step_keeps_posted [where e = e and mid = mid and s = s] show ?case by simp
qed

lemma resume_posted_update: "resume (s\<lparr>posted := p\<rparr>) = (resume s)\<lparr>posted := p\<rparr>"
  by (simp add: resume_def yield_new_def)

lemma stream_abort_once:
  assumes "Abort \<notin> set pre" and "Abort \<notin> set post"
  shows "ideStreamRequest mid mt d True (pre @ Abort # post) =
           (ideStreamRequest mid mt d True (pre @ post))
             \<lparr>posted := [(mt, d, mid), (''abort'', JUndefined, mid)]\<rparr>"
proof -
  let ?s = "foldl (step mid) (stream_start mid mt d True) pre"
  from run_keeps_posted [OF assms(1), where mid = mid and s = "stream_start mid mt d True"]
  have "posted ?s = [(mt, d, mid)]" "abort_listener ?s" by (simp_all add: stream_start_def)
  then have "step mid ?s Abort = ?s\<lparr>posted := [(mt, d, mid), (''abort'', JUndefined, mid)]\<rparr>"
    by simp
  then show ?thesis
    by (simp add: ideStreamRequest_def run_posted_update [OF assms(2)] resume_posted_update)
qed

lemma step_waiting_no_completion:
  assumes "waiting s" and "\<forall>m\<in>set (inbound_of e). \<not> completion mid m"
  shows "waiting (step mid s e)"
proof (cases e)
  case (Inbound ev)
  with assms show ?thesis
    by (auto simp: waiting_def completion_def stream_handler_def split: option.splits)
next
  case Timer
  with assms show ?thesis by (simp add: waiting_def resume_def)
next
  case Abort
  with assms show ?thesis by (simp add: waiting_def)
qed

lemma run_waiting_no_completion:
  assumes "waiting s" and "\<forall>m\<in>set (inbound es). \<not> completion mid m"
  shows "waiting (foldl (step mid) s es)"
  using assms
proof (induction es arbitrary: s)
  case Nil
  then show ?case by simp
next
  case (Cons e es)
  have f: "\<forall>m\<in>set (inbound_of e). \<not> completion mid m"
    and r: "\<forall>m\<in>set (inbound es). \<not> completion mid m"
    using Cons.prems(2) by (auto simp: inbound_def)
  from step_waiting_no_completion [OF Cons.prems(1) f] Cons.IH [of "step mid s e"] r
  show ?case by simp
qed

lemma stream_polls_without_completion:
  assumes "\<forall>m\<in>set (inbound events). \<not> completion mid m"
  shows "returned (ideStreamRequest mid mt d ct events) = None"
  using run_waiting_no_completion [OF start_waiting assms]
  by (simp add: ideStreamRequest_def waiting_def resume_def)

text \<open>
  Claim C6, as the code has it. When the cancellation signal of a running stream fires,
  \<^verbatim>\<open>postToIde\<close> is called once more, with \<^verbatim>\<open>abort\<close>, no payload and the stream's
  identifier; the chunks yielded and the value returned are those of the same events
  without the signal, so that the generator keeps polling until a completion arrives.
  The call puts exactly one envelope, bearing the stream's identifier, on the wire when
  one of its attempts 0 to 5 finds a send primitive, every earlier attempt having
  thrown; otherwise it puts none.
\<close>
theorem ideStreamRequest_abort:
  assumes "Abort \<notin> set pre" and "Abort \<notin> set post"
  shows "posted (ideStreamRequest mid mt d True (pre @ Abort # post))
           = [(mt, d, mid), (''abort'', JUndefined, mid)]
       \<and> yielded (ideStreamRequest mid mt d True (pre @ Abort # post))
           = yielded (ideStreamRequest mid mt d True (pre @ post))
       \<and> returned (ideStreamRequest mid mt d True (pre @ Abort # post))
           = returned (ideStreamRequest mid mt d True (pre @ post))
       \<and> ((\<forall>m\<in>set (inbound (pre @ post)). \<not> completion mid m) \<longrightarrow>
            returned (ideStreamRequest mid mt d True (pre @ Abort # post)) = None)
       \<and> envelopes_sent (effects (event_loop env ''abort'' JUndefined (Some mid) 0))
           = (if delivers env
              then [\<lparr>messageId = mid, messageType = ''abort'', data = JUndefined\<rparr>] else [])"
proof (intro conjI impI)
  note a = stream_abort_once [OF assms, where mid = mid and mt = mt and d = d]
  show "posted (ideStreamRequest mid mt d True (pre @ Abort # post))
           = [(mt, d, mid), (''abort'', JUndefined, mid)]"
    and "yielded (ideStreamRequest mid mt d True (pre @ Abort # post))
           = yielded (ideStreamRequest mid mt d True (pre @ post))"
    and y: "returned (ideStreamRequest mid mt d True (pre @ Abort # post))
           = returned (ideStreamRequest mid mt d True (pre @ post))"
    unfolding a by simp_all
  assume "\<forall>m\<in>set (inbound (pre @ post)). \<not> completion mid m"
  from stream_polls_without_completion [OF this] y
  show "returned (ideStreamRequest mid mt d True (pre @ Abort # post)) = None" by simp
next
  show "envelopes_sent (effects (event_loop env ''abort'' JUndefined (Some mid) 0))
           = (if delivers env
              then [\<lparr>messageId = mid, messageType = ''abort'', data = JUndefined\<rparr>] else [])"
    by (rule event_loop_delivers)
qed

theorem ideStreamRequest_abort_witness:
  "posted (ideStreamRequest ''X'' ''llmStreamChat'' JNull True
      [Inbound (fragment_msg ''X'' ''a''), Timer, Abort, Timer])
     = [(''llmStreamChat'', JNull, ''X''), (''abort'', JUndefined, ''X'')]
   \<and> returned (ideStreamRequest ''X'' ''llmStreamChat'' JNull True
      [Inbound (fragment_msg ''X'' ''a''), Timer, Abort, Timer]) = None
   \<and> envelopes_sent (effects (event_loop (bridge_from 1) ''abort'' JUndefined (Some ''X'') 0))
       = [\<lparr>messageId = ''X'', messageType = ''abort'', data = JUndefined\<rparr>]"
proof -
  have n: "\<forall>m\<in>set (inbound ([Inbound (fragment_msg ''X'' ''a''), Timer] @ [Timer])).
             \<not> completion ''X'' m"
    by (simp add: completion_def fragment_msg_def)
  have r: "delivers (bridge_from 1)"
    unfolding delivers_def
    by (rule bexI [of _ 1]) (simp_all add: unreachable_def bridge_from_def bridge_missing_def)
  have "Abort \<notin> set [Inbound (fragment_msg ''X'' ''a''), Timer]" and "Abort \<notin> set [Timer]"
    by simp_all
  note t = ideStreamRequest_abort [OF this, of "''X''" "''llmStreamChat''" JNull "bridge_from 1"]
  from t r have "envelopes_sent
           (effects (event_loop (bridge_from 1) ''abort'' JUndefined (Some ''X'') 0))
           = [\<lparr>messageId = ''X'', messageType = ''abort'', data = JUndefined\<rparr>]"
    by simp
  moreover from t n
  have "posted (ideStreamRequest ''X'' ''llmStreamChat'' JNull True
          ([Inbound (fragment_msg ''X'' ''a''), Timer] @ Abort # [Timer]))
         = [(''llmStreamChat'', JNull, ''X''), (''abort'', JUndefined, ''X'')]
       \<and> returned (ideStreamRequest ''X'' ''llmStreamChat'' JNull True
          ([Inbound (fragment_msg ''X'' ''a''), Timer] @ Abort # [Timer])) = None"
    by blast
  ultimately show ?thesis by simp
qed

text \<open>
  The claim as stated (one abort envelope for every stream) fails where no send
  primitive is reachable and the selector only logs: the signal fires, the call is made,
  and nothing is sent.
\<close>
theorem ideStreamRequest_abort_not_sent:
  "posted (ideStreamRequest ''X'' ''llmStreamChat'' JNull True
      [Inbound (fragment_msg ''X'' ''a''), Timer, Abort, Timer])
     = [(''llmStreamChat'', JNull, ''X''), (''abort'', JUndefined, ''X'')]
   \<and> envelopes_sent (effects (event_loop (\<lambda>n. browser_only) ''abort'' JUndefined (Some ''X'') 0))
       = []"
proof -
  have "\<not> delivers (\<lambda>n. browser_only)"
    by (simp add: delivers_def unreachable_def browser_only_def)
  then have "envelopes_sent
      (effects (event_loop (\<lambda>n. browser_only) ''abort'' JUndefined (Some ''X'') 0)) = []"
    by (simp add: event_loop_delivers)
  moreover have "posted (ideStreamRequest ''X'' ''llmStreamChat'' JNull True
      [Inbound (fragment_msg ''X'' ''a''), Timer, Abort, Timer])
     = [(''llmStreamChat'', JNull, ''X''), (''abort'', JUndefined, ''X'')]"
    by (simp add: ideStreamRequest_def stream_start_def stream_handler_def fragment_msg_def
        resume_def yield_new_def)
  ultimately show ?thesis by simp
qed

end
